theory Spec2Isabelle
  imports Complex_Main "HOL-Library.Sublist" "HOL-Library.AList"
begin


section \<open>Go primitives used by the capture buffer\<close>

text \<open>
  A Go byte is modelled as \<^typ>\<open>char\<close> (an 8-bit value), a byte slice and a Go string
  as \<^typ>\<open>char list\<close>. A run-time panic (index out of range, slice bounds out of range,
  nil pointer dereference, integer division by zero, close of a closed channel) is the
  value \<open>None\<close> of an option type.
\<close>

type_synonym byte = char

text \<open>
  The built-in \<open>copy(dst, src)\<close>: overwrites the first \<open>min (len dst) (len src)\<close>
  elements of \<open>dst\<close> and returns that number.
\<close>

definition copy_go :: "'a list \<Rightarrow> 'a list \<Rightarrow> 'a list \<times> nat" where
  "copy_go dst src =
     (take (min (length dst) (length src)) src @ drop (length src) dst,
      min (length dst) (length src))"

text \<open>
  The slice expression \<open>s[lo:hi]\<close> on a slice whose capacity equals its length (all
  slices of the buffer are made by \<open>make\<close> with a length only): it panics unless
  \<open>lo \<le> hi \<le> len s\<close>.
\<close>

definition slice_go :: "'a list \<Rightarrow> nat \<Rightarrow> nat \<Rightarrow> 'a list option" where
  "slice_go s lo hi = (if lo \<le> hi \<and> hi \<le> length s then Some (drop lo (take hi s)) else None)"

section \<open>The capture buffer (ring buffer of captured packets)\<close>

record CapturedPacket =
  Timestamp :: int
  Direction :: string
  Bytes :: int
  HexDump :: string
  AsciiStrings :: "string list"
  DetectedProtocol :: string
  RawData :: "byte list"

text \<open>
  The slots of \<open>data\<close> are pointers: \<open>None\<close> is the nil pointer. \<open>maxSize\<close> and
  \<open>currentSize\<close> are Go ints and may be negative in a hand-built struct, so they are
  integers; \<open>head\<close>, \<open>tail\<close> and \<open>count\<close> index the slice and only ever hold
  values that were reduced modulo its length or counted up from zero.

  Go's \<open>int\<close> has 64 bits. Where the loop of \<open>Add\<close> tests
  \<open>currentSize + packetSize\<close>, both summands are at most \<open>maxSize\<close> in a buffer that
  satisfies its invariant, so the sum does not wrap for a budget below \<open>2 ^ 62\<close> bytes;
  the model computes with unbounded integers.
\<close>

record RingBuffer =
  data :: "CapturedPacket option list"
  maxSize :: int
  currentSize :: int
  head :: nat
  tail :: nat
  count :: nat

definition NewRingBuffer :: "int \<Rightarrow> RingBuffer" where
  "NewRingBuffer maxSize0 =
     (let maxSize1 = (if maxSize0 \<le> 0 then 10 * 1024 * 1024 else maxSize0);
          initialCapacity = 1000
      in \<lparr> data = replicate initialCapacity None, maxSize = maxSize1, currentSize = 0,
           head = 0, tail = 0, count = 0 \<rparr>)"

text \<open>
  The eviction loop of \<open>Add\<close>:
  \<^verbatim>\<open>for rb.currentSize+packetSize > rb.maxSize && rb.count > 0 { ... }\<close>
  Reading \<open>rb.data[rb.tail]\<close> out of range, dereferencing a nil slot and taking the
  remainder by a zero length are panics.
\<close>

function evict :: "RingBuffer \<Rightarrow> int \<Rightarrow> RingBuffer option" where
  "evict rb packetSize =
     (if currentSize rb + packetSize > maxSize rb \<and> count rb > 0 then
        (if tail rb < length (data rb) then
           (case data rb ! tail rb of
              None \<Rightarrow> None
            | Some oldPacket \<Rightarrow>
                evict (rb\<lparr> currentSize := currentSize rb - int (length (RawData oldPacket)),
                           tail := (tail rb + 1) mod length (data rb),
                           count := count rb - 1 \<rparr>) packetSize)
         else None)
      else Some rb)"
  by pat_completeness auto
termination
  by (relation "measure (\<lambda>(rb, n). count rb)") auto

text \<open>\<open>grow\<close> doubles the capacity and lays the retained packets out from index 0.\<close>

definition grow :: "RingBuffer \<Rightarrow> RingBuffer option" where
  "grow rb =
     (let newData = replicate (length (data rb) * 2) None in
      map_option (\<lambda>d. rb\<lparr> data := d, tail := 0, head := count rb \<rparr>)
      (if tail rb < head rb then
         (case slice_go (data rb) (tail rb) (head rb) of
            None \<Rightarrow> None
          | Some src \<Rightarrow> Some (fst (copy_go newData src)))
       else if count rb > 0 then
         (case slice_go (data rb) (tail rb) (length (data rb)) of
            None \<Rightarrow> None
          | Some src1 \<Rightarrow>
              (case copy_go newData src1 of (newData1, n) \<Rightarrow>
                 (case slice_go (data rb) 0 (head rb) of
                    None \<Rightarrow> None
                  | Some src2 \<Rightarrow>
                      (if n \<le> length newData1 then
                         Some (take n newData1 @ fst (copy_go (drop n newData1) src2))
                       else None))))
       else Some newData))"

text \<open>
  \<open>Add\<close>. The packet is reached through a pointer and its \<open>RawData\<close> is cut in place;
  the model stores the cut packet. (A packet that is already in the buffer has at most
  \<open>maxSize\<close> raw bytes, so adding the same pointer again cuts nothing and the packets
  stored earlier keep their size.) A negative \<open>maxSize\<close> makes the slice expression
  \<open>packet.RawData[:rb.maxSize]\<close> panic.
\<close>

definition Add :: "RingBuffer \<Rightarrow> CapturedPacket \<Rightarrow> RingBuffer option" where
  "Add rb packet =
     (let packetSize0 = int (length (RawData packet)) in
      (case (if packetSize0 > maxSize rb then
               (if maxSize rb < 0 then None
                else Some (packet\<lparr> RawData := take (nat (maxSize rb)) (RawData packet) \<rparr>,
                           maxSize rb))
             else Some (packet, packetSize0)) of
         None \<Rightarrow> None
       | Some (packet1, packetSize) \<Rightarrow>
           (case evict rb packetSize of
              None \<Rightarrow> None
            | Some rb1 \<Rightarrow>
                (case (if count rb1 = length (data rb1) then grow rb1 else Some rb1) of
                   None \<Rightarrow> None
                 | Some rb2 \<Rightarrow>
                     (if head rb2 < length (data rb2) then
                        Some (rb2\<lparr> data := (data rb2)[head rb2 := Some packet1],
                                   head := (head rb2 + 1) mod length (data rb2),
                                   count := count rb2 + 1,
                                   currentSize := currentSize rb2 + packetSize \<rparr>)
                      else None)))))"

definition GetAll :: "RingBuffer \<Rightarrow> CapturedPacket option list option" where
  "GetAll rb =
     (if count rb = 0 then Some []
      else
        (let result = replicate (count rb) None in
         if tail rb < head rb then
           (case slice_go (data rb) (tail rb) (head rb) of
              None \<Rightarrow> None
            | Some src \<Rightarrow> Some (fst (copy_go result src)))
         else
           (case slice_go (data rb) (tail rb) (length (data rb)) of
              None \<Rightarrow> None
            | Some src1 \<Rightarrow>
                (case copy_go result src1 of (result1, n) \<Rightarrow>
                   (case slice_go (data rb) 0 (head rb) of
                      None \<Rightarrow> None
                    | Some src2 \<Rightarrow>
                        (if n \<le> length result1 then
                           Some (take n result1 @ fst (copy_go (drop n result1) src2))
                         else None))))))"

definition Clear :: "RingBuffer \<Rightarrow> RingBuffer" where
  "Clear rb = rb\<lparr> head := 0, tail := 0, count := 0, currentSize := 0,
                  data := map (\<lambda>_. None) (data rb) \<rparr>"

subsection \<open>Abstraction of the ring: the retained packets, oldest first\<close>

text \<open>
  \<open>evict.simps\<close> is an unconditional recursive equation and is applied by hand only.
\<close>

declare evict.simps [simp del]

definition pkt_size :: "CapturedPacket option \<Rightarrow> nat" where
  "pkt_size q = (case q of None \<Rightarrow> 0 | Some p \<Rightarrow> length (RawData p))"

definition raw_total :: "CapturedPacket option list \<Rightarrow> nat" where
  "raw_total qs = sum_list (map pkt_size qs)"

definition contents :: "RingBuffer \<Rightarrow> CapturedPacket option list" where
  "contents rb = take (count rb) (rotate (tail rb) (data rb))"

text \<open>
  The representation invariant of the ring: a non-empty slice, \<open>tail\<close> inside it,
  \<open>head\<close> exactly \<open>count\<close> slots after \<open>tail\<close> (cyclically), no nil among the
  retained slots, and \<open>currentSize\<close> equal to the raw bytes retained.
\<close>

definition ring_inv :: "RingBuffer \<Rightarrow> bool" where
  "ring_inv rb \<longleftrightarrow>
     0 < length (data rb) \<and> tail rb < length (data rb) \<and> count rb \<le> length (data rb) \<and>
     head rb = (tail rb + count rb) mod length (data rb) \<and>
     None \<notin> set (contents rb) \<and>
     currentSize rb = int (raw_total (contents rb))"

text \<open>
  The eviction rule on the abstract sequence: drop the oldest packet while the retained
  bytes plus the incoming size exceed the budget and a packet remains.
\<close>

fun evict_fifo :: "int \<Rightarrow> int \<Rightarrow> CapturedPacket option list \<Rightarrow> CapturedPacket option list" where
  "evict_fifo B n [] = []"
| "evict_fifo B n (q # qs) = (if int (raw_total (q # qs)) + n > B then evict_fifo B n qs else q # qs)"

text \<open>The packet as \<open>Add\<close> stores it: raw data cut to the budget when longer.\<close>

definition truncate_packet :: "int \<Rightarrow> CapturedPacket \<Rightarrow> CapturedPacket" where
  "truncate_packet B p = (if int (length (RawData p)) > B then p\<lparr> RawData := take (nat B) (RawData p) \<rparr> else p)"

text \<open>A finite sequence of \<open>Add\<close> calls on one buffer; a panic ends the run.\<close>

fun add_all :: "RingBuffer \<Rightarrow> CapturedPacket list \<Rightarrow> RingBuffer option" where
  "add_all rb [] = Some rb"
| "add_all rb (p # ps) = (case Add rb p of None \<Rightarrow> None | Some rb' \<Rightarrow> add_all rb' ps)"

text \<open>A packet with the given raw bytes, for concrete runs.\<close>

definition pkt :: "byte list \<Rightarrow> CapturedPacket" where
  "pkt raw = \<lparr> Timestamp = 0, Direction = ''Client->Server'', Bytes = int (length raw),
               HexDump = [], AsciiStrings = [], DetectedProtocol = ''Unknown'', RawData = raw \<rparr>"

section \<open>The protocol sniffer\<close>

text \<open>
  \<open>strings.HasPrefix\<close> and \<open>strings.Contains\<close> of the Go standard library, on byte
  strings: the first compares the leading \<open>len prefix\<close> bytes, the second looks for an
  occurrence at every position from left to right.
\<close>

definition HasPrefix :: "string \<Rightarrow> string \<Rightarrow> bool" where
  "HasPrefix s pre \<longleftrightarrow> length pre \<le> length s \<and> take (length pre) s = pre"

fun Contains :: "string \<Rightarrow> string \<Rightarrow> bool" where
  "Contains [] substr = (substr = [])"
| "Contains (c # cs) substr = (HasPrefix (c # cs) substr \<or> Contains cs substr)"

text \<open>
  \<open>detectProtocol\<close>; the parameter \<open>data\<close> of the source is written \<open>dat\<close> (the name
  \<open>data\<close> is a field of the ring buffer). The conversion \<open>string(data)\<close> keeps the bytes.
\<close>

definition detectProtocol :: "byte list \<Rightarrow> string" where
  "detectProtocol dat =
     (let dataStr = dat in
      if HasPrefix dataStr ''GET '' \<or> HasPrefix dataStr ''POST '' \<or>
         HasPrefix dataStr ''PUT '' \<or> HasPrefix dataStr ''DELETE '' \<or>
         HasPrefix dataStr ''HEAD '' \<or> HasPrefix dataStr ''OPTIONS '' \<or>
         HasPrefix dataStr ''HTTP/1.'' then ''HTTP/1.x''
      else if HasPrefix dataStr ''PRI * HTTP/2.0'' then ''HTTP/2''
      else if Contains dataStr ''/grpc.'' \<or> Contains dataStr ''.proto.'' then ''gRPC''
      else if length dat > 5 \<and> dat ! 0 = CHR 0x16 \<and> dat ! 1 = CHR 0x03 then ''TLS''
      else ''Unknown'')"

text \<open>
  The five rules as the specification words them, over the library notions of prefix and
  contiguous sublist: the first rule that matches gives the label.
\<close>

definition sniff_rules :: "byte list \<Rightarrow> string" where
  "sniff_rules chunk =
     (if prefix ''GET '' chunk \<or> prefix ''POST '' chunk \<or> prefix ''PUT '' chunk \<or>
         prefix ''DELETE '' chunk \<or> prefix ''HEAD '' chunk \<or> prefix ''OPTIONS '' chunk \<or>
         prefix ''HTTP/1.'' chunk then ''HTTP/1.x''
      else if prefix ''PRI * HTTP/2.0'' chunk then ''HTTP/2''
      else if sublist ''/grpc.'' chunk \<or> sublist ''.proto.'' chunk then ''gRPC''
      else if 5 < length chunk \<and> prefix [CHR 0x16, CHR 0x03] chunk then ''TLS''
      else ''Unknown'')"

text \<open>
  \<open>extractAsciiStrings\<close>: the loop over the bytes carries the strings found so far and
  the run being read.
\<close>

fun extract_loop :: "string list \<Rightarrow> byte list \<Rightarrow> byte list \<Rightarrow> string list \<times> byte list" where
  "extract_loop strs current [] = (strs, current)"
| "extract_loop strs current (b # bs) =
     (if (32::nat) \<le> of_char b \<and> of_char b \<le> (126::nat)
      then extract_loop strs (current @ [b]) bs
      else extract_loop (if length current > 4 then strs @ [current] else strs) [] bs)"

definition extractAsciiStrings :: "byte list \<Rightarrow> string list" where
  "extractAsciiStrings dat =
     (case extract_loop [] [] dat of (strs, current) \<Rightarrow>
        (let strs1 = (if length current > 4 then strs @ [current] else strs)
         in if length strs1 > 10 then take 10 strs1 else strs1))"

text \<open>
  The specification's words: a byte is printable when it lies in the inclusive range
  0x20 to 0x7E; a maximal run starts at a printable byte that is the first byte or
  follows a non-printable one, and extends over all printable bytes that follow.
\<close>

definition printable :: "byte \<Rightarrow> bool" where
  "printable b \<longleftrightarrow> (0x20::nat) \<le> of_char b \<and> of_char b \<le> (0x7E::nat)"

definition run_start :: "byte list \<Rightarrow> nat \<Rightarrow> bool" where
  "run_start chunk i \<longleftrightarrow>
     i < length chunk \<and> printable (chunk ! i) \<and> (i = 0 \<or> \<not> printable (chunk ! (i - 1)))"

definition maximal_runs :: "byte list \<Rightarrow> byte list list" where
  "maximal_runs chunk =
     map (\<lambda>i. takeWhile printable (drop i chunk)) (filter (run_start chunk) [0..<length chunk])"

definition ascii_strings_spec :: "byte list \<Rightarrow> string list" where
  "ascii_strings_spec chunk = take 10 (filter (\<lambda>r. 4 < length r) (maximal_runs chunk))"

text \<open>
  The runs with the run being read kept apart (used to relate the loop to
  \<open>maximal_runs\<close>).
\<close>

fun pending_runs :: "byte list \<Rightarrow> byte list \<Rightarrow> byte list list" where
  "pending_runs cur [] = (if cur = [] then [] else [cur])"
| "pending_runs cur (b # bs) =
     (if printable b then pending_runs (cur @ [b]) bs
      else (if cur = [] then [] else [cur]) @ pending_runs [] bs)"

section \<open>Buffer statistics\<close>

text \<open>
  A \<open>float64\<close> is modelled by the real number it denotes: the conversion of an integer
  and the arithmetic on it are exact in the model (the rounding of IEEE arithmetic is not
  modelled). The read-only operations return the buffer they leave behind, so that
  ``does not modify the buffer'' is a statement about the model.
\<close>

definition getUsagePercentLocked :: "RingBuffer \<Rightarrow> real" where
  "getUsagePercentLocked rb =
     (if maxSize rb = 0 then 0
      else real_of_int (currentSize rb) * 100 / real_of_int (maxSize rb))"

definition GetUsagePercent :: "RingBuffer \<Rightarrow> real \<times> RingBuffer" where
  "GetUsagePercent rb = (getUsagePercentLocked rb, rb)"

definition GetStats :: "RingBuffer \<Rightarrow> (nat \<times> int \<times> real) \<times> RingBuffer" where
  "GetStats rb = ((count rb, currentSize rb, getUsagePercentLocked rb), rb)"

section \<open>The proxy registry\<close>

text \<open>
  \<open>fmt.Sprintf\<close> with the verb \<open>%d\<close>: the decimal digits of an integer, with a minus
  sign when negative.
\<close>

function nat_dec :: "nat \<Rightarrow> string" where
  "nat_dec n = (if n < 10 then [''0123456789'' ! n]
                else nat_dec (n div 10) @ [''0123456789'' ! (n mod 10)])"
  by pat_completeness auto
termination
  by (relation "measure id") auto

definition int_dec :: "int \<Rightarrow> string" where
  "int_dec i = (if i < 0 then CHR ''-'' # nat_dec (nat (- i)) else nat_dec (nat i))"

text \<open>
  The errors of the engine are made by \<open>fmt.Errorf\<close>: an error value is its message.
  The three kinds are the three formats of \<open>StartProxy\<close> and \<open>StopProxy\<close>; \<open>reason\<close>
  is the text of the operating system's error.
\<close>

type_synonym error = string

definition AlreadyRunning :: "int \<Rightarrow> error" where
  "AlreadyRunning listenPort = ''proxy already running on port '' @ int_dec listenPort"

definition BindError :: "int \<Rightarrow> string \<Rightarrow> error" where
  "BindError listenPort reason = ''failed to bind to port '' @ int_dec listenPort @ '': '' @ reason"

definition NotFound :: "int \<Rightarrow> error" where
  "NotFound listenPort = ''no proxy running on port '' @ int_dec listenPort"

record ProxyStats =
  BytesCaptured :: int
  Connections :: int

text \<open>
  \<open>Listener\<close> is the handle of the operating system's listener; \<open>Done\<close> is the channel
  of the instance, \<open>True\<close> once it is closed; times are abstract integers.
\<close>

record ProxyInstance =
  ListenPort :: int
  ForwardHost :: string
  ForwardPort :: int
  Listener :: nat
  Buffer :: RingBuffer
  Stats :: ProxyStats
  Done :: bool
  StartedAt :: int
  connections :: int

text \<open>
  The Go map from port to instance is an association list with \<open>map_of\<close> for lookup,
  \<open>AList.update\<close> for assignment and \<open>AList.delete\<close> for \<open>delete\<close>; its order stands
  for the unspecified iteration order of a Go map. Every operation of the manager runs
  under the manager's lock from its first to its last statement, so calls from several
  goroutines take effect one after the other: an operation is a function from the
  registry before the call to the result and the registry after it.
\<close>

record ProxyManager =
  proxies :: "(int \<times> ProxyInstance) list"

definition NewProxyManager :: ProxyManager where
  "NewProxyManager = \<lparr> proxies = [] \<rparr>"

text \<open>
  \<open>StartProxy\<close>. \<open>listenResult\<close> is what \<open>net.Listen\<close> returns when it is called
  (\<open>Inl reason\<close> for an error, \<open>Inr l\<close> for a listener) and \<open>now\<close> what \<open>time.Now\<close>
  returns. The accept loop started by \<open>go proxy.run()\<close> is not part of this function.
  The result is the error (\<open>None\<close> for \<open>nil\<close>) and the registry after the call.
\<close>

definition StartProxy ::
  "ProxyManager \<Rightarrow> string + nat \<Rightarrow> int \<Rightarrow> int \<Rightarrow> string \<Rightarrow> int \<Rightarrow> int \<Rightarrow> error option \<times> ProxyManager" where
  "StartProxy pm listenResult now listenPort forwardHost forwardPort captureLimit =
     (case map_of (proxies pm) listenPort of
        Some _ \<Rightarrow> (Some (AlreadyRunning listenPort), pm)
      | None \<Rightarrow>
          (case listenResult of
             Inl reason \<Rightarrow> (Some (BindError listenPort reason), pm)
           | Inr listener \<Rightarrow>
               (let proxy = \<lparr> ListenPort = listenPort, ForwardHost = forwardHost,
                              ForwardPort = forwardPort, Listener = listener,
                              Buffer = NewRingBuffer captureLimit,
                              Stats = \<lparr> BytesCaptured = 0, Connections = 0 \<rparr>,
                              Done = False, StartedAt = now, connections = 0 \<rparr>
                in (None, pm\<lparr> proxies := AList.update listenPort proxy (proxies pm) \<rparr>))))"

text \<open>
  \<open>StopProxy\<close>. \<open>close(proxy.Done)\<close> panics on a closed channel (the value \<open>None\<close>).
  Closing the listener acts on the operating system only. The result is the pair
  returned by the source, \<open>(bytes, error)\<close>, and the registry after the call.
\<close>

definition StopProxy ::
  "ProxyManager \<Rightarrow> int \<Rightarrow> ((int \<times> error option) \<times> ProxyManager) option" where
  "StopProxy pm listenPort =
     (case map_of (proxies pm) listenPort of
        None \<Rightarrow> Some ((0, Some (NotFound listenPort)), pm)
      | Some proxy \<Rightarrow>
          (if Done proxy then None
           else
             (let bytesCaptured = BytesCaptured (Stats proxy)
              in Some ((bytesCaptured, None),
                       pm\<lparr> proxies := AList.delete listenPort (proxies pm) \<rparr>))))"


definition GetAllProxies :: "ProxyManager \<Rightarrow> ProxyInstance list" where
  "GetAllProxies pm = map snd (proxies pm)"

definition StopAll :: "ProxyManager \<Rightarrow> ProxyManager option" where
  "StopAll pm =
     (if list_ex (\<lambda>(port, proxy). Done proxy) (proxies pm) then None
      else Some (pm\<lparr> proxies := [] \<rparr>))"

text \<open>
  The invariant of a registry reached from \<open>NewProxyManager\<close>: one entry per port, each
  entry stored under its own listen port, with its channel open and a positive budget.
\<close>

definition registry_ok :: "ProxyManager \<Rightarrow> bool" where
  "registry_ok pm \<longleftrightarrow>
     distinct (map fst (proxies pm)) \<and>
     list_all (\<lambda>(port, proxy). ListenPort proxy = port \<and> \<not> Done proxy \<and>
                                0 < maxSize (Buffer proxy)) (proxies pm)"

text \<open>
  A sequence of \<open>StartProxy\<close> calls in the order in which they take the lock; each call
  comes with its own arguments and with what the operating system answers to it.
\<close>

record start_call =
  call_listen :: "string + nat"
  call_now :: int
  call_port :: int
  call_host :: string
  call_fport :: int
  call_limit :: int

fun start_calls :: "ProxyManager \<Rightarrow> start_call list \<Rightarrow> error option list \<times> ProxyManager" where
  "start_calls pm [] = ([], pm)"
| "start_calls pm (c # cs) =
     (case StartProxy pm (call_listen c) (call_now c) (call_port c) (call_host c)
             (call_fport c) (call_limit c) of
        (r, pm') \<Rightarrow> (case start_calls pm' cs of (rs, pm'') \<Rightarrow> (r # rs, pm'')))"

text \<open>The calls on port \<open>p\<close> that returned \<open>nil\<close>, over a run of \<open>start_calls\<close>.\<close>

definition started_on :: "int \<Rightarrow> error option list \<Rightarrow> start_call list \<Rightarrow> nat" where
  "started_on p rs cs = length (filter (\<lambda>(r, c). r = None \<and> call_port c = p) (zip rs cs))"

text \<open>A registry with one instance on port 8080, for concrete runs.\<close>

definition pm_8080 :: ProxyManager where
  "pm_8080 = snd (StartProxy NewProxyManager (Inr 7) 0 8080 ''localhost'' 3000 0)"

text \<open>
  The buffer of the test \<open>TestBufferGetStatsDeadlock\<close>: a budget of 1 MiB and one packet
  of 100 raw bytes.
\<close>

definition test_packet :: CapturedPacket where
  "test_packet = \<lparr> Timestamp = 0, Direction = ''Test'', Bytes = 100, HexDump = ''test hex'',
                   AsciiStrings = [''test''], DetectedProtocol = ''Test'',
                   RawData = replicate 100 (CHR 0x00) \<rparr>"

definition test_buffer :: RingBuffer where
  "test_buffer = \<lparr> data = (replicate 1000 None)[0 := Some test_packet], maxSize = 1024 * 1024,
                   currentSize = 100, head = 1, tail = 0, count = 1 \<rparr>"

section \<open>The tool handlers\<close>

text \<open>
  A value of the empty interface, as the transport decodes a JSON argument set (numbers
  arrive as \<open>float64\<close>) or as a Go caller builds one.
\<close>

datatype any =
    ANil
  | ABool bool
  | AFloat64 real
  | AInt int
  | AInt64 int
  | AString string
  | AMap "(string \<times> any) list"
  | ASlice "any list"

text \<open>
  The conversion \<open>int(v)\<close> of a \<open>float64\<close> drops the fraction (rounds towards zero).
  Outside the range of \<open>int\<close> the result depends on the implementation; the model keeps
  the truncated value there.
\<close>

definition float64_to_int :: "real \<Rightarrow> int" where
  "float64_to_int v = (if v < 0 then - \<lfloor>- v\<rfloor> else \<lfloor>v\<rfloor>)"

definition getInt :: "(string \<times> any) list \<Rightarrow> string \<Rightarrow> int \<times> bool" where
  "getInt args key =
     (case map_of args key of
        None \<Rightarrow> (0, False)
      | Some val \<Rightarrow>
          (case val of
             AFloat64 v \<Rightarrow> (float64_to_int v, True)
           | AInt v \<Rightarrow> (v, True)
           | AInt64 v \<Rightarrow> (v, True)
           | _ \<Rightarrow> (0, False)))"

definition getString :: "(string \<times> any) list \<Rightarrow> string \<Rightarrow> string \<times> bool" where
  "getString args key =
     (case map_of args key of
        None \<Rightarrow> ([], False)
      | Some val \<Rightarrow> (case val of AString str \<Rightarrow> (str, True) | _ \<Rightarrow> ([], False)))"

text \<open>
  A tool result carries the JSON text of a Go map; the model keeps the map, with its
  keys in the order of the source. The values that occur are strings, integers, lists of
  strings and lists of such maps. Two kinds of string are kept unformatted: a time
  written with the layout \<open>2006-01-02T15:04:05.000Z\<close> (\<open>JTime\<close>) and a usage written
  with the verb \<open>%.1f%%\<close> (\<open>JPercent\<close>).
\<close>

datatype jvalue =
    JString string
  | JInt int
  | JStringList "string list"
  | JObjectList "(string \<times> jvalue) list list"
  | JTime int
  | JPercent real

type_synonym CallToolResult = "(string \<times> jvalue) list"

text \<open>
  A handler returns the pair \<open>(*mcp.CallToolResult, error)\<close>: \<open>(None, Some e)\<close> is the
  failure handed to the transport, \<open>(Some r, None)\<close> a tool result.
\<close>

type_synonym handler_result = "CallToolResult option \<times> error option"

text \<open>
  The capture limit that \<open>StartProxyHandler.Execute\<close> passes to the engine (the lines
  that read \<open>capture_limit\<close> and replace a value that is not positive by 10 MiB).
\<close>

definition startCaptureLimit :: "(string \<times> any) list \<Rightarrow> int" where
  "startCaptureLimit args =
     (let captureLimit = fst (getInt args ''capture_limit'')
      in if captureLimit \<le> 0 then 10 * 1024 * 1024 else captureLimit)"

definition StartProxyHandler_Execute ::
  "ProxyManager \<Rightarrow> string + nat \<Rightarrow> int \<Rightarrow> any \<Rightarrow> handler_result \<times> ProxyManager" where
  "StartProxyHandler_Execute pm listenResult now arguments =
     (case arguments of
        AMap args \<Rightarrow>
          (case getInt args ''listen_port'' of (listenPort, ok1) \<Rightarrow>
             if \<not> ok1 then ((None, Some ''listen_port is required''), pm)
             else
               (let forwardHost0 = fst (getString args ''forward_host'');
                    forwardHost = (if forwardHost0 = [] then ''localhost'' else forwardHost0)
                in case getInt args ''forward_port'' of (forwardPort, ok2) \<Rightarrow>
                     if \<not> ok2 then ((None, Some ''forward_port is required''), pm)
                     else
                       (let captureLimit = startCaptureLimit args
                        in case StartProxy pm listenResult now listenPort forwardHost
                                  forwardPort captureLimit of
                             (Some err, pm') \<Rightarrow> ((Some [(''error'', JString err)], None), pm')
                           | (None, pm') \<Rightarrow>
                               ((Some [(''status'', JString ''started''),
                                       (''listen_port'', JInt listenPort),
                                       (''forward_to'',
                                          JString (forwardHost @ '':'' @ int_dec forwardPort))],
                                 None), pm'))))
      | _ \<Rightarrow> ((None, Some ''invalid arguments format''), pm))"







section \<open>The connection relay\<close>

text \<open>
  \<open>handleConnection\<close> makes one channel \<open>connDone\<close> and runs \<open>copyWithCapture\<close> twice,
  once in a goroutine of its own (client to server) and once in the calling goroutine
  (server to client). The two relays run at the same time; what they share is the channel
  of the instance \<open>p.Done\<close> and \<open>connDone\<close>. The model is a transition system over these
  two channels and the position of each relay in the loop of \<open>copyWithCapture\<close>. A
  channel operation or an operation on a connection is one step; the steps of the two
  relays interleave in any order, as the Go scheduler allows.
\<close>

datatype relay_id = ClientToServer | ServerToClient

text \<open>
  The positions in \<open>copyWithCapture\<close>: the \<open>select\<close> at the head of the loop (on
  \<open>p.Done\<close> and \<open>done\<close>, with a default), the call \<open>src.Read\<close>, the call \<open>dst.Write\<close>,
  the \<open>select\<close> on \<open>done\<close> under the comment ``Only close done once'' (the same lines
  after a failed read and after a failed write), the statement \<open>close(done)\<close> in its
  default branch, and the return.
\<close>

datatype position = AtSelect | AtRead | AtWrite | AtGuard | AtClose | Returned

text \<open>
  What \<open>src.Read\<close> returns: a timeout, \<open>io.EOF\<close>, the error of a closed connection,
  another error, or \<open>n\<close> bytes with a nil error. What \<open>dst.Write\<close> returns: nil or an
  error.
\<close>

datatype read_result = ReadTimeout | ReadEOF | ReadClosed | ReadError | ReadData nat

datatype write_result = WriteOk | WriteError

record conn_state =
  pDone :: bool
  connDone :: bool
  loc :: "relay_id \<Rightarrow> position"
  panicked :: bool
  closes :: nat

definition conn_init :: conn_state where
  "conn_init = \<lparr> pDone = False, connDone = False, loc = (\<lambda>r. AtSelect), panicked = False,
                 closes = 0 \<rparr>"

text \<open>
  One step of one relay, or the registry closing the channel of the instance. \<open>closes\<close>
  counts the executions of \<open>close(done)\<close> on \<open>connDone\<close>. Closing a closed channel is a
  run-time panic, which ends the process: no step follows it. A step that does not fit
  the position of its relay is not a step of the program (\<open>None\<close>). The capture of the
  bytes read touches the buffer and the statistics only and is left out.
\<close>

datatype event =
    Select relay_id
  | Read relay_id read_result
  | Write relay_id write_result
  | Guard relay_id
  | Close relay_id
  | StopInstance

definition step :: "conn_state \<Rightarrow> event \<Rightarrow> conn_state option" where
  "step s ev =
     (if panicked s then None
      else
        (case ev of
           Select r \<Rightarrow>
             (if loc s r = AtSelect then
                Some (s\<lparr> loc := (loc s)(r := (if pDone s \<or> connDone s then Returned else AtRead)) \<rparr>)
              else None)
         | Read r res \<Rightarrow>
             (if loc s r = AtRead then
                Some (s\<lparr> loc := (loc s)(r :=
                        (case res of
                           ReadTimeout \<Rightarrow> AtSelect
                         | ReadData n \<Rightarrow> (if n > 0 then AtWrite else AtSelect)
                         | _ \<Rightarrow> AtGuard)) \<rparr>)
              else None)
         | Write r res \<Rightarrow>
             (if loc s r = AtWrite then
                Some (s\<lparr> loc := (loc s)(r := (case res of WriteOk \<Rightarrow> AtSelect | WriteError \<Rightarrow> AtGuard)) \<rparr>)
              else None)
         | Guard r \<Rightarrow>
             (if loc s r = AtGuard then
                Some (s\<lparr> loc := (loc s)(r := (if connDone s then Returned else AtClose)) \<rparr>)
              else None)
         | Close r \<Rightarrow>
             (if loc s r = AtClose then
                (if connDone s then Some (s\<lparr> panicked := True, closes := closes s + 1 \<rparr>)
                 else Some (s\<lparr> connDone := True, closes := closes s + 1,
                             loc := (loc s)(r := Returned) \<rparr>))
              else None)
         | StopInstance \<Rightarrow>
             (if pDone s then Some (s\<lparr> panicked := True \<rparr>) else Some (s\<lparr> pDone := True \<rparr>))))"

fun run :: "conn_state \<Rightarrow> event list \<Rightarrow> conn_state option" where
  "run s [] = Some s"
| "run s (ev # evs) = (case step s ev of None \<Rightarrow> None | Some s' \<Rightarrow> run s' evs)"

text \<open>
  Both peers close: each relay reads \<open>io.EOF\<close>. In the first schedule each relay passes
  its guard before the other closes; in the second the client-to-server relay finishes
  before the other reaches its guard.
\<close>

definition both_eof_interleaved :: "event list" where
  "both_eof_interleaved =
     [Select ClientToServer, Select ServerToClient,
      Read ClientToServer ReadEOF, Read ServerToClient ReadEOF,
      Guard ClientToServer, Guard ServerToClient,
      Close ClientToServer, Close ServerToClient]"

text \<open>The first six steps of the first schedule: up to the point where both relays have
  passed the guard.\<close>

definition both_eof_guards_passed :: "event list" where
  "both_eof_guards_passed = take 6 both_eof_interleaved"

definition both_eof_in_turn :: "event list" where
  "both_eof_in_turn =
     [Select ClientToServer, Select ServerToClient,
      Read ClientToServer ReadEOF, Read ServerToClient ReadEOF,
      Guard ClientToServer, Close ClientToServer,
      Guard ServerToClient]"

text \<open>
  The count of closes in a state: one exactly when the channel is closed, as long as no
  panic has happened.
\<close>

definition closes_ok :: "conn_state \<Rightarrow> bool" where
  "closes_ok s \<longleftrightarrow> (if panicked s then closes s \<le> 2
                    else closes s = (if connDone s then 1 else 0))"

section \<open>The capture buffer: correctness of the ring\<close>

lemma copy_go_replicate:
  "length src \<le> m \<Longrightarrow> copy_go (replicate m x) src = (src @ replicate (m - length src) x, length src)"
  by (simp add: copy_go_def min_def)

lemma contents_tl:
  assumes "0 < length xs" "0 < c" "c \<le> length xs"
  shows "take (c - 1) (rotate ((t + 1) mod length xs) xs) = tl (take c (rotate t xs))"
proof -
  from assms obtain y ys where r: "rotate t xs = y # ys"
    by (cases "rotate t xs") auto
  then have ly: "length ys = length xs - 1"
    by (metis length_rotate length_Cons diff_Suc_1)
  have "rotate ((t + 1) mod length xs) xs = rotate (Suc t) xs"
    by (simp add: rotate_conv_mod[symmetric])
  also have "\<dots> = ys @ [y]" using r by (simp add: rotate1_def)
  finally have a: "rotate ((t + 1) mod length xs) xs = ys @ [y]" .
  obtain c' where c': "c = Suc c'" using assms(2) by (cases c) auto
  have "take c' (ys @ [y]) = take c' ys" using assms(3) ly c' by simp
  then show ?thesis unfolding a r c' by simp
qed

lemma mod_step:
  "0 < c \<Longrightarrow> ((t + 1) mod n + (c - 1)) mod n = (t + c) mod (n::nat)"
proof -
  assume "0 < c"
  then obtain c' where c': "c = Suc c'" by (cases c) auto
  have "((t + 1) mod n + c') mod n = (t + 1 + c') mod n" by (rule mod_add_left_eq)
  then show ?thesis by (simp add: c')
qed

lemma evict_correct:
  "ring_inv rb \<Longrightarrow>
   \<exists>rb'. evict rb n = Some rb' \<and> ring_inv rb' \<and> maxSize rb' = maxSize rb \<and>
         data rb' = data rb \<and> contents rb' = evict_fifo (maxSize rb) n (contents rb) \<and>
         (currentSize rb' + n \<le> maxSize rb' \<or> count rb' = 0)"
proof (induction rb n rule: evict.induct)
  case (1 rb n)
  show ?case
  proof (cases "currentSize rb + n > maxSize rb \<and> count rb > 0")
    case False
    then have e: "evict rb n = Some rb" by (subst evict.simps) auto
    have "contents rb = evict_fifo (maxSize rb) n (contents rb)"
    proof (cases "contents rb")
      case Nil then show ?thesis by simp
    next
      case (Cons q qs)
      then have "count rb > 0" by (cases "count rb") (auto simp: contents_def)
      with False have "\<not> currentSize rb + n > maxSize rb" by simp
      with Cons "1.prems" show ?thesis by (simp add: ring_inv_def)
    qed
    with e False "1.prems" show ?thesis by auto
  next
    case True
    from "1.prems" have len: "0 < length (data rb)" and t: "tail rb < length (data rb)"
      and c: "count rb \<le> length (data rb)" by (auto simp: ring_inv_def)
    from True have c0: "0 < count rb" by simp
    have hdc: "contents rb = (data rb ! tail rb) # tl (contents rb)"
    proof -
      have "contents rb \<noteq> []" using c0 len by (auto simp: contents_def)
      moreover have "hd (contents rb) = data rb ! tail rb"
        using c0 len t by (simp add: contents_def hd_rotate_conv_nth)
      ultimately show ?thesis by (cases "contents rb") auto
    qed
    then have "data rb ! tail rb \<in> set (contents rb)" by (metis list.set_intros(1))
    with "1.prems" obtain old where old: "data rb ! tail rb = Some old"
      by (cases "data rb ! tail rb") (auto simp: ring_inv_def)
    let ?rb1 = "rb\<lparr> currentSize := currentSize rb - int (length (RawData old)),
                           tail := (tail rb + 1) mod length (data rb),
                           count := count rb - 1 \<rparr>"
    have ct: "contents ?rb1 = tl (contents rb)"
      using contents_tl[OF len c0 c] by (simp add: contents_def)
    have inv1: "ring_inv ?rb1"
    proof -
      have "((tail rb + 1) mod length (data rb) + (count rb - 1)) mod length (data rb)
            = (tail rb + count rb) mod length (data rb)"
        using c0 by (rule mod_step)
      moreover have "None \<notin> set (tl (contents rb))"
        using "1.prems" by (metis ring_inv_def list.set_sel(2) tl_Nil)
      moreover have "raw_total (contents rb) = length (RawData old) + raw_total (tl (contents rb))"
        using hdc old by (metis raw_total_def list.simps(9) sum_list.Cons pkt_size_def option.simps(5))
      ultimately show ?thesis using "1.prems" len c c0 unfolding ring_inv_def ct
        by simp
    qed
    have ev: "evict rb n = evict ?rb1 n"
      using True t old by (subst evict.simps) simp
    from "1.IH"[OF True t old inv1] obtain rb' where
      r: "evict ?rb1 n = Some rb'" "ring_inv rb'" "maxSize rb' = maxSize ?rb1"
         "data rb' = data ?rb1" "contents rb' = evict_fifo (maxSize ?rb1) n (contents ?rb1)"
         "currentSize rb' + n \<le> maxSize rb' \<or> count rb' = 0" by blast
    have "evict_fifo (maxSize rb) n (contents rb) = evict_fifo (maxSize rb) n (tl (contents rb))"
    proof -
      obtain q qs where qq: "contents rb = q # qs" using hdc by blast
      have "int (raw_total (q # qs)) + n > maxSize rb"
        using True "1.prems" by (simp add: ring_inv_def qq)
      then show ?thesis by (simp add: qq)
    qed
    with r ev ct show ?thesis by simp
  qed
qed


lemma rotate_less:
  "t < length xs \<Longrightarrow> rotate t xs = drop t xs @ take t xs"
  by (simp add: rotate_drop_take)

lemma grow_correct:
  assumes inv: "ring_inv rb" and full: "count rb = length (data rb)"
  shows "\<exists>rb'. grow rb = Some rb' \<and> ring_inv rb' \<and> maxSize rb' = maxSize rb \<and>
               contents rb' = contents rb \<and> count rb' = count rb \<and>
               currentSize rb' = currentSize rb \<and> count rb' < length (data rb')"
proof -
  let ?n = "length (data rb)"
  from inv have len: "0 < ?n" and t: "tail rb < ?n" by (auto simp: ring_inv_def)
  from inv full have h: "head rb = tail rb" by (simp add: ring_inv_def)
  let ?d = "drop (tail rb) (data rb) @ take (tail rb) (data rb) @ replicate ?n None"
  have s1: "slice_go (data rb) (tail rb) ?n = Some (drop (tail rb) (data rb))"
    using t by (simp add: slice_go_def)
  have s2: "slice_go (data rb) 0 (tail rb) = Some (take (tail rb) (data rb))"
    using t by (simp add: slice_go_def)
  have c1: "copy_go (replicate (?n * 2) None) (drop (tail rb) (data rb))
            = (drop (tail rb) (data rb) @ replicate (?n * 2 - (?n - tail rb)) None, ?n - tail rb)"
    using t by (subst copy_go_replicate) auto
  have c2: "copy_go (replicate (?n * 2 - (?n - tail rb)) None) (take (tail rb) (data rb))
            = (take (tail rb) (data rb) @ replicate ?n None, tail rb)"
    using t by (subst copy_go_replicate) (auto simp: min_def)
  have g: "grow rb = Some (rb\<lparr> data := ?d, tail := 0, head := count rb \<rparr>)"
    using len full h s1 s2 c1 c2 by (simp add: grow_def Let_def)
  let ?rb' = "rb\<lparr> data := ?d, tail := 0, head := count rb \<rparr>"
  have c: "contents ?rb' = contents rb"
    using t full by (simp add: contents_def rotate_less)
  have "ring_inv ?rb'"
    using inv len full unfolding ring_inv_def c by simp
  with g c full len t show ?thesis by simp
qed

lemma mod_inj_less:
  assumes "i < c" "c < (n::nat)"
  shows "(t + i) mod n \<noteq> (t + c) mod n"
proof
  assume e: "(t + i) mod n = (t + c) mod n"
  have le: "t + i \<le> t + c" using assms by simp
  have "n dvd (t + c) - (t + i)"
    using mod_eq_dvd_iff_nat[OF le, of n] e by simp
  then have "n dvd c - i" by simp
  moreover have "0 < c - i" "c - i < n" using assms by auto
  ultimately show False using nat_dvd_not_less by blast
qed


lemma rotate_update:
  assumes "c < length xs"
  shows "rotate t (xs[(t + c) mod length xs := x]) = (rotate t xs)[c := x]"
proof (rule nth_equalityI)
  show "length (rotate t (xs[(t + c) mod length xs := x])) = length ((rotate t xs)[c := x])"
    by simp
next
  fix i assume "i < length (rotate t (xs[(t + c) mod length xs := x]))"
  then have i: "i < length xs" by simp
  have "0 < length xs" using assms by (cases xs) auto
  then have m: "(t + c) mod length xs < length xs" by simp
  show "rotate t (xs[(t + c) mod length xs := x]) ! i = (rotate t xs)[c := x] ! i"
  proof (cases "i = c")
    case True
    then show ?thesis using i m by (simp add: nth_rotate)
  next
    case False
    then have "(t + i) mod length xs \<noteq> (t + c) mod length xs"
      using mod_inj_less[of i c "length xs" t] mod_inj_less[of c i "length xs" t] i assms
      by (cases "i < c") auto
    then show ?thesis using i False by (simp add: nth_rotate)
  qed
qed

lemma insert_correct:
  assumes inv: "ring_inv rb" and room: "count rb < length (data rb)"
  shows "head rb < length (data rb) \<and>
         ring_inv (rb\<lparr> data := (data rb)[head rb := Some p],
                        head := (head rb + 1) mod length (data rb),
                        count := count rb + 1,
                        currentSize := currentSize rb + int (length (RawData p)) \<rparr>) \<and>
         contents (rb\<lparr> data := (data rb)[head rb := Some p],
                        head := (head rb + 1) mod length (data rb),
                        count := count rb + 1,
                        currentSize := currentSize rb + int (length (RawData p)) \<rparr>)
           = contents rb @ [Some p]"
proof -
  let ?n = "length (data rb)"
  from inv have len: "0 < ?n" and t: "tail rb < ?n"
    and h: "head rb = (tail rb + count rb) mod ?n" by (auto simp: ring_inv_def)
  let ?rb' = "rb\<lparr> data := (data rb)[head rb := Some p],
                        head := (head rb + 1) mod length (data rb),
                        count := count rb + 1,
                        currentSize := currentSize rb + int (length (RawData p)) \<rparr>"
  have hl: "head rb < ?n" using h len by simp
  have "contents ?rb' = take (Suc (count rb)) ((rotate (tail rb) (data rb))[count rb := Some p])"
    using rotate_update[OF room, of "tail rb" "Some p"] h by (simp add: contents_def)
  also have "\<dots> = contents rb @ [Some p]"
    using room by (simp add: take_Suc_conv_app_nth contents_def)
  finally have c: "contents ?rb' = contents rb @ [Some p]" .
  have "(head rb + 1) mod ?n = (tail rb + (count rb + 1)) mod ?n"
    unfolding h by (simp add: mod_Suc_eq)
  then have "ring_inv ?rb'"
    using inv room unfolding ring_inv_def c
    by (simp add: raw_total_def pkt_size_def)
  with hl c show ?thesis by simp
qed

lemma GetAll_correct:
  assumes inv: "ring_inv rb"
  shows "GetAll rb = Some (contents rb)"
proof (cases "count rb = 0")
  case True
  then show ?thesis by (simp add: GetAll_def contents_def)
next
  case False
  let ?n = "length (data rb)"
  from inv have len: "0 < ?n" and t: "tail rb < ?n" and c: "count rb \<le> ?n"
    and h: "head rb = (tail rb + count rb) mod ?n" by (auto simp: ring_inv_def)
  show ?thesis
  proof (cases "tail rb + count rb < ?n")
    case True
    then have h': "head rb = tail rb + count rb" using h by simp
    let ?src = "drop (tail rb) (take (head rb) (data rb))"
    have s: "slice_go (data rb) (tail rb) (head rb) = Some ?src"
      using True h' by (simp add: slice_go_def)
    have ls: "length ?src = count rb" using True h' by simp
    have cg: "copy_go (replicate (count rb) None) ?src = (?src, count rb)"
      using ls by (simp add: copy_go_def)
    have "take (count rb) (drop (tail rb) (data rb)) = ?src"
      unfolding h' by (simp add: drop_take)
    then have "contents rb = ?src"
      using True t by (simp add: contents_def rotate_less)
    have c: "contents rb = ?src" by fact
    have lt: "tail rb < head rb" using h' False by simp
    show ?thesis unfolding GetAll_def Let_def c s using False lt by (simp add: cg)
  next
    case False2: False
    then have ge: "?n \<le> tail rb + count rb" by simp
    have "(tail rb + count rb) mod ?n = (tail rb + count rb - ?n) mod ?n"
      using ge by (rule le_mod_geq)
    moreover have "tail rb + count rb - ?n < ?n" using t c by simp
    ultimately have "(tail rb + count rb) mod ?n = tail rb + count rb - ?n"
      by simp
    then have h': "head rb = tail rb + count rb - ?n" using h by simp
    then have hle: "head rb \<le> tail rb" using c by simp
    have s1: "slice_go (data rb) (tail rb) ?n = Some (drop (tail rb) (data rb))"
      using t by (simp add: slice_go_def)
    have s2: "slice_go (data rb) 0 (head rb) = Some (take (head rb) (data rb))"
      using t hle by (simp add: slice_go_def)
    have c1: "copy_go (replicate (count rb) None) (drop (tail rb) (data rb))
              = (drop (tail rb) (data rb) @ replicate (head rb) None, ?n - tail rb)"
      using t ge h' by (subst copy_go_replicate) auto
    have c2: "copy_go (replicate (head rb) None) (take (head rb) (data rb))
              = (take (head rb) (data rb), head rb)"
      using t hle by (subst copy_go_replicate) auto
    have hc: "count rb - (?n - tail rb) = head rb" using h' t ge by simp
    have "take (count rb) (drop (tail rb) (data rb) @ take (tail rb) (data rb))
          = drop (tail rb) (data rb) @ take (head rb) (take (tail rb) (data rb))"
      using ge t by (simp add: hc)
    also have "take (head rb) (take (tail rb) (data rb)) = take (head rb) (data rb)"
      using hle by (simp add: min_def)
    finally have cc: "contents rb = drop (tail rb) (data rb) @ take (head rb) (data rb)"
      using t by (simp add: contents_def rotate_less)
    have nlt: "\<not> tail rb < head rb" using hle by simp
    show ?thesis unfolding GetAll_def Let_def cc s1 s2 c1
      using False nlt t by (simp add: c1 c2)
  qed
qed

lemma Add_correct:
  assumes inv: "ring_inv rb" and B: "0 \<le> maxSize rb"
  shows "\<exists>rb'. Add rb p = Some rb' \<and> ring_inv rb' \<and> maxSize rb' = maxSize rb \<and>
               contents rb' =
                 evict_fifo (maxSize rb) (int (length (RawData (truncate_packet (maxSize rb) p))))
                   (contents rb) @ [Some (truncate_packet (maxSize rb) p)]"
proof -
  let ?p = "truncate_packet (maxSize rb) p"
  let ?sz = "int (length (RawData ?p))"
  have pre: "(if int (length (RawData p)) > maxSize rb then
               (if maxSize rb < 0 then None
                else Some (p\<lparr> RawData := take (nat (maxSize rb)) (RawData p) \<rparr>, maxSize rb))
             else Some (p, int (length (RawData p)))) = Some (?p, ?sz)"
    using B by (auto simp: truncate_packet_def)
  from evict_correct[OF inv, of ?sz] obtain rb1 where
    r1: "evict rb ?sz = Some rb1" "ring_inv rb1" "maxSize rb1 = maxSize rb"
        "contents rb1 = evict_fifo (maxSize rb) ?sz (contents rb)" by blast
  obtain rb2 where
    r2: "(if count rb1 = length (data rb1) then grow rb1 else Some rb1) = Some rb2"
        "ring_inv rb2" "maxSize rb2 = maxSize rb1" "contents rb2 = contents rb1"
        "count rb2 < length (data rb2)"
  proof (cases "count rb1 = length (data rb1)")
    case True
    from grow_correct[OF r1(2) True] that True show ?thesis by auto
  next
    case False
    with r1(2) have "count rb1 < length (data rb1)" by (simp add: ring_inv_def)
    with that False r1 show ?thesis by auto
  qed
  let ?rb' = "rb2\<lparr> data := (data rb2)[head rb2 := Some ?p],
                        head := (head rb2 + 1) mod length (data rb2),
                        count := count rb2 + 1,
                        currentSize := currentSize rb2 + ?sz \<rparr>"
  from insert_correct[OF r2(2) r2(5), of ?p] have
    r3: "head rb2 < length (data rb2)" "ring_inv ?rb'" "contents ?rb' = contents rb2 @ [Some ?p]"
    by auto
  have "Add rb p = Some ?rb'"
    unfolding Add_def Let_def pre using r1(1) r2(1) r3(1) by simp
  with r3 r2 r1 show ?thesis by simp
qed

lemma NewRingBuffer_inv: "ring_inv (NewRingBuffer m)"
  by (simp add: NewRingBuffer_def ring_inv_def contents_def raw_total_def Let_def)

lemma Clear_inv: "ring_inv rb \<Longrightarrow> ring_inv (Clear rb)"
  by (simp add: Clear_def ring_inv_def contents_def raw_total_def)

lemma raw_total_append: "raw_total (xs @ ys) = raw_total xs + raw_total ys"
  by (simp add: raw_total_def)

lemma evict_fifo_bound:
  "n \<le> B \<Longrightarrow> int (raw_total (evict_fifo B n xs)) + n \<le> B"
  by (induction xs) (auto simp: raw_total_def)

lemma evict_fifo_suffix: "suffix (evict_fifo B n xs) xs"
  by (induction xs) (auto simp: suffix_Cons)

lemma truncate_packet_size:
  "0 \<le> B \<Longrightarrow> int (length (RawData (truncate_packet B p))) \<le> B"
  by (auto simp: truncate_packet_def)

lemma truncate_packet_big:
  "0 \<le> B \<Longrightarrow> B \<le> int (length (RawData p)) \<Longrightarrow>
   truncate_packet B p = p\<lparr> RawData := take (nat B) (RawData p) \<rparr> \<and>
   int (length (RawData (truncate_packet B p))) = B"
  by (auto simp: truncate_packet_def)

lemma Add_budget:
  assumes inv: "ring_inv rb" and B: "0 \<le> maxSize rb"
  shows "\<exists>rb'. Add rb p = Some rb' \<and> ring_inv rb' \<and> maxSize rb' = maxSize rb \<and>
               currentSize rb' \<le> maxSize rb \<and>
               suffix [Some (truncate_packet (maxSize rb) p)] (contents rb') \<and>
               (maxSize rb \<le> int (length (RawData p)) \<longrightarrow> currentSize rb' = maxSize rb)"
proof -
  let ?p = "truncate_packet (maxSize rb) p"
  let ?sz = "int (length (RawData ?p))"
  let ?kept = "evict_fifo (maxSize rb) ?sz (contents rb)"
  from Add_correct[OF inv B, of p] obtain rb' where
    r: "Add rb p = Some rb'" "ring_inv rb'" "maxSize rb' = maxSize rb"
       "contents rb' = ?kept @ [Some ?p]" by blast
  have sz: "?sz \<le> maxSize rb" using B by (rule truncate_packet_size)
  have cs: "currentSize rb' = int (raw_total ?kept) + ?sz"
    using r(2) r(4) by (simp add: ring_inv_def raw_total_append raw_total_def pkt_size_def)
  have le: "int (raw_total ?kept) + ?sz \<le> maxSize rb"
    using sz by (rule evict_fifo_bound)
  have big: "maxSize rb \<le> int (length (RawData p)) \<longrightarrow> currentSize rb' = maxSize rb"
  proof
    assume a: "maxSize rb \<le> int (length (RawData p))"
    have "?sz = maxSize rb" by (rule truncate_packet_big[OF B a, THEN conjunct2])
    with le cs show "currentSize rb' = maxSize rb" by simp
  qed
  have "suffix [Some ?p] (contents rb')" unfolding r(4) by (simp add: suffix_def)
  with r cs le big show ?thesis by simp
qed

lemma add_all_budget:
  "ring_inv rb \<Longrightarrow> 0 \<le> maxSize rb \<Longrightarrow> currentSize rb \<le> maxSize rb \<Longrightarrow>
   \<exists>rb'. add_all rb ps = Some rb' \<and> ring_inv rb' \<and> maxSize rb' = maxSize rb \<and>
         currentSize rb' \<le> maxSize rb \<and>
         (ps \<noteq> [] \<longrightarrow> suffix [Some (truncate_packet (maxSize rb) (last ps))] (contents rb') \<and>
            (maxSize rb \<le> int (length (RawData (last ps))) \<longrightarrow> currentSize rb' = maxSize rb))"
proof (induction ps arbitrary: rb)
  case Nil
  then show ?case by simp
next
  case (Cons p ps)
  from Add_budget[OF Cons.prems(1,2), of p] obtain rb1 where
    r: "Add rb p = Some rb1" "ring_inv rb1" "maxSize rb1 = maxSize rb"
       "currentSize rb1 \<le> maxSize rb"
       "suffix [Some (truncate_packet (maxSize rb) p)] (contents rb1)"
       "maxSize rb \<le> int (length (RawData p)) \<longrightarrow> currentSize rb1 = maxSize rb" by blast
  show ?case
  proof (cases ps)
    case Nil
    with r show ?thesis by simp
  next
    case (Cons p' ps')
    from Cons.IH[of rb1] r Cons.prems obtain rb' where
      "add_all rb1 ps = Some rb'" "ring_inv rb'" "maxSize rb' = maxSize rb1"
      "currentSize rb' \<le> maxSize rb1"
      "ps \<noteq> [] \<longrightarrow> suffix [Some (truncate_packet (maxSize rb1) (last ps))] (contents rb') \<and>
            (maxSize rb1 \<le> int (length (RawData (last ps))) \<longrightarrow> currentSize rb' = maxSize rb1)"
      by auto
    with r Cons show ?thesis by simp
  qed
qed

lemma NewRingBuffer_fields:
  "0 < maxSize (NewRingBuffer b)"
  "currentSize (NewRingBuffer b) = 0"
  "contents (NewRingBuffer b) = []"
  by (simp_all add: NewRingBuffer_def contents_def Let_def)

text \<open>
  Claim C1. For a buffer made by \<open>NewRingBuffer\<close>, with budget \<open>B\<close> (which is positive),
  and any finite sequence of \<open>Add\<close> calls, every call returns (no panic), the budget is
  unchanged, \<open>GetAll\<close> returns the retained packets, the byte counter equals the raw
  bytes they hold and is at most \<open>B\<close>.
  When the packet added last has at least \<open>B\<close> raw bytes, it is stored with its raw
  data cut to the first \<open>B\<close> bytes and the total is exactly \<open>B\<close>. As the sequence is
  arbitrary, this holds after each call.
\<close>

theorem C1_budget:
  assumes m: "maxSize (NewRingBuffer b) = B"
  shows "\<exists>rb qs. add_all (NewRingBuffer b) ps = Some rb \<and> maxSize rb = B \<and> 0 < B \<and>
           GetAll rb = Some qs \<and> currentSize rb = int (raw_total qs) \<and>
           int (raw_total qs) \<le> B \<and>
           (ps \<noteq> [] \<and> B \<le> int (length (RawData (last ps))) \<longrightarrow>
              int (raw_total qs) = B \<and>
              last qs = Some ((last ps)\<lparr> RawData := take (nat B) (RawData (last ps)) \<rparr>))"
proof -
  let ?rb0 = "NewRingBuffer b"
  have B: "0 < B" using NewRingBuffer_fields(1)[of b] m by simp
  have "ring_inv ?rb0" by (rule NewRingBuffer_inv)
  moreover have "0 \<le> maxSize ?rb0" "currentSize ?rb0 \<le> maxSize ?rb0"
    using B m by (simp_all add: NewRingBuffer_fields(2))
  ultimately obtain rb where
    r: "add_all ?rb0 ps = Some rb" "ring_inv rb" "maxSize rb = B" "currentSize rb \<le> B"
       "ps \<noteq> [] \<longrightarrow> suffix [Some (truncate_packet B (last ps))] (contents rb) \<and>
            (B \<le> int (length (RawData (last ps))) \<longrightarrow> currentSize rb = B)"
    using add_all_budget[of ?rb0 ps] unfolding m by blast
  have g: "GetAll rb = Some (contents rb)" using r(2) by (rule GetAll_correct)
  have cs: "currentSize rb = int (raw_total (contents rb))" using r(2) by (simp add: ring_inv_def)
  have "int (raw_total (contents rb)) = B \<and>
        last (contents rb) = Some ((last ps)\<lparr> RawData := take (nat B) (RawData (last ps)) \<rparr>)"
    if ne: "ps \<noteq> []" and big: "B \<le> int (length (RawData (last ps)))"
  proof -
    from r(5) ne big have s: "suffix [Some (truncate_packet B (last ps))] (contents rb)"
      and e: "currentSize rb = B" by auto
    have "0 \<le> B" using B by simp
    from truncate_packet_big[OF this big] have
      t: "truncate_packet B (last ps) = (last ps)\<lparr> RawData := take (nat B) (RawData (last ps)) \<rparr>"
      by simp
    from s obtain zs where "contents rb = zs @ [Some (truncate_packet B (last ps))]"
      by (auto simp: suffix_def)
    then have "last (contents rb) = Some (truncate_packet B (last ps))" by simp
    with t e cs show ?thesis by simp
  qed
  with r g cs B show ?thesis by auto
qed

theorem C1_budget_witness:
  "maxSize (NewRingBuffer 4) = 4 \<and>
   (\<exists>rb qs. add_all (NewRingBuffer 4) [pkt ''ab'', pkt ''abcdef''] = Some rb \<and> maxSize rb = 4 \<and>
           GetAll rb = Some qs \<and> currentSize rb = int (raw_total qs) \<and>
           int (raw_total qs) \<le> 4 \<and> int (raw_total qs) = 4 \<and>
           last qs = Some ((pkt ''abcdef'')\<lparr> RawData := ''abcd'' \<rparr>))"
proof -
  have m: "maxSize (NewRingBuffer 4) = 4" by (simp add: NewRingBuffer_def Let_def)
  from C1_budget[OF m, of "[pkt ''ab'', pkt ''abcdef'']"] m show ?thesis
    by (simp add: pkt_def)
qed

text \<open>
  Claim C2. Eviction is first-in first-out: in a buffer made by \<open>NewRingBuffer\<close> whose
  budget is \<open>2 * X\<close>, after adding three packets of raw size \<open>X\<close> in order, \<open>GetAll\<close>
  returns exactly the second and the third, in that order.
\<close>

theorem C2_fifo:
  assumes m0: "maxSize (NewRingBuffer b) = 2 * int X"
    and p1: "length (RawData p1) = X" and p2: "length (RawData p2) = X"
    and p3: "length (RawData p3) = X"
  shows "\<exists>rb. add_all (NewRingBuffer b) [p1, p2, p3] = Some rb \<and>
              GetAll rb = Some [Some p2, Some p3]"
proof -
  let ?B = "2 * int X"
  let ?rb0 = "NewRingBuffer b"
  have B: "0 < ?B" using NewRingBuffer_fields(1)[of b] m0 by simp
  then have X: "0 < X" by simp
  have tr: "truncate_packet ?B p1 = p1" "truncate_packet ?B p2 = p2" "truncate_packet ?B p3 = p3"
    using p1 p2 p3 by (simp_all add: truncate_packet_def)
  from Add_correct[of ?rb0 p1] obtain rb1 where
    r1: "Add ?rb0 p1 = Some rb1" "ring_inv rb1" "maxSize rb1 = ?B" "contents rb1 = [Some p1]"
    using NewRingBuffer_inv[of b] B unfolding m0 tr by (auto simp: NewRingBuffer_fields(3))
  from Add_correct[of rb1 p2] obtain rb2 where
    r2: "Add rb1 p2 = Some rb2" "ring_inv rb2" "maxSize rb2 = ?B"
        "contents rb2 = [Some p1, Some p2]"
    using r1 B p1 p2 unfolding r1(3) tr by (auto simp: raw_total_def pkt_size_def)
  from Add_correct[of rb2 p3] obtain rb3 where
    r3: "Add rb2 p3 = Some rb3" "ring_inv rb3" "maxSize rb3 = ?B"
        "contents rb3 = [Some p2, Some p3]"
    using r2 B X p1 p2 p3 unfolding r2(3) tr by (auto simp: raw_total_def pkt_size_def)
  have "add_all ?rb0 [p1, p2, p3] = Some rb3" using r1(1) r2(1) r3(1) by simp
  moreover have "GetAll rb3 = Some [Some p2, Some p3]"
    using GetAll_correct[OF r3(2)] r3(4) by simp
  ultimately show ?thesis by blast
qed

theorem C2_fifo_witness:
  "maxSize (NewRingBuffer 6) = 2 * 3 \<and>
   (\<exists>rb. add_all (NewRingBuffer 6) [pkt ''one'', pkt ''two'', pkt ''six''] = Some rb \<and>
        GetAll rb = Some [Some (pkt ''two''), Some (pkt ''six'')])"
proof -
  have m: "maxSize (NewRingBuffer 6) = 2 * int 3" by (simp add: NewRingBuffer_def Let_def)
  from C2_fifo[OF m, of "pkt ''one''" "pkt ''two''" "pkt ''six''"] m show ?thesis
    by (simp add: pkt_def)
qed

section \<open>The protocol sniffer: the rules and the printable runs\<close>

lemma HasPrefix_iff: "HasPrefix s p \<longleftrightarrow> prefix p s"
  unfolding HasPrefix_def prefix_def
  by (metis append_eq_conv_conj append_take_drop_id length_append le_add1 length_take min.absorb2)

lemma Contains_iff: "Contains s sub \<longleftrightarrow> sublist sub s"
  by (induction s) (auto simp: HasPrefix_iff sublist_Cons_right)

lemma tls_iff:
  "(5 < length d \<and> d ! 0 = CHR 0x16 \<and> d ! 1 = CHR 0x03) \<longleftrightarrow>
   (5 < length d \<and> prefix [CHR 0x16, CHR 0x03] d)"
proof (cases d)
  case Nil then show ?thesis by simp
next
  case (Cons a d')
  then show ?thesis by (cases d') auto
qed

text \<open>
  Claim C4. \<open>detectProtocol\<close> returns the label of the five ordered rules, first match
  first: one of the seven HTTP/1 prefixes, then the HTTP/2 preface, then an occurrence of
  \<open>/grpc.\<close> or \<open>.proto.\<close> anywhere, then more than five bytes starting 0x16 0x03, else
  \<open>Unknown\<close>. A chunk that starts 0x16 0x03 and contains \<open>/grpc.\<close> is \<open>gRPC\<close>, not
  \<open>TLS\<close>.
\<close>

theorem C4_detectProtocol:
  "detectProtocol chunk = sniff_rules chunk \<and>
   (sublist ''/grpc.'' (CHR 0x16 # CHR 0x03 # rest) \<longrightarrow>
      detectProtocol (CHR 0x16 # CHR 0x03 # rest) = ''gRPC'')"
proof
  show "detectProtocol chunk = sniff_rules chunk"
    unfolding detectProtocol_def sniff_rules_def Let_def HasPrefix_iff Contains_iff tls_iff
    by (rule refl)
next
  show "sublist ''/grpc.'' (CHR 0x16 # CHR 0x03 # rest) \<longrightarrow>
      detectProtocol (CHR 0x16 # CHR 0x03 # rest) = ''gRPC''"
    unfolding detectProtocol_def Let_def HasPrefix_iff Contains_iff
    by simp
qed

theorem C4_detectProtocol_witness:
  "detectProtocol ([CHR 0x16, CHR 0x03, CHR 0x01] @ ''/grpc.health.v1.Health/Check'') = ''gRPC''"
  using C4_detectProtocol[of "[]" "[CHR 0x01] @ ''/grpc.health.v1.Health/Check''"]
  by (simp add: sublist_Cons_right)

lemma printable_iff: "printable b \<longleftrightarrow> (32::nat) \<le> of_char b \<and> of_char b \<le> (126::nat)"
  by (simp add: printable_def)

lemma extract_loop_pending:
  "(case extract_loop strs cur bs of (s, c) \<Rightarrow> (if length c > 4 then s @ [c] else s))
   = strs @ filter (\<lambda>r. 4 < length r) (pending_runs cur bs)"
proof (induction bs arbitrary: strs cur)
  case Nil
  then show ?case by auto
next
  case (Cons b bs)
  show ?case
  proof (cases "printable b")
    case True
    then show ?thesis using Cons.IH[of strs "cur @ [b]"] by (simp add: printable_iff)
  next
    case False
    then show ?thesis
      using Cons.IH[of "if length cur > 4 then strs @ [cur] else strs" "[]"]
      by (auto simp: printable_iff)
  qed
qed

lemma nth_mid: "i < length cur \<Longrightarrow> (pre @ cur @ rest) ! (length pre + i) = cur ! i"
  by (simp add: nth_append)

lemma start_first:
  assumes "cur \<noteq> []" "\<forall>c\<in>set cur. printable c" "pre = [] \<or> \<not> printable (last pre)"
  shows "run_start (pre @ cur @ rest) (length pre)"
proof -
  have "(pre @ cur @ rest) ! length pre = hd cur"
    using assms(1) nth_mid[of 0 cur pre rest] by (simp add: hd_conv_nth)
  moreover have "printable (hd cur)" using assms(1,2) by simp
  moreover have "length pre = 0 \<or> \<not> printable ((pre @ cur @ rest) ! (length pre - 1))"
  proof (cases "pre = []")
    case True then show ?thesis by simp
  next
    case False
    then have "(pre @ cur @ rest) ! (length pre - 1) = last pre"
      by (simp add: nth_append last_conv_nth)
    with assms(3) False show ?thesis by simp
  qed
  ultimately show ?thesis using assms(1) by (simp add: run_start_def)
qed

lemma no_start_inside:
  assumes "\<forall>c\<in>set cur. printable c" "length pre < i" "i \<le> length pre + length cur"
  shows "\<not> run_start (pre @ cur @ rest) i"
proof -
  define j where "j = i - 1 - length pre"
  have j: "i - 1 = length pre + j" "j < length cur"
    using assms(2,3) by (simp_all add: j_def)
  have "(pre @ cur @ rest) ! (i - 1) = cur ! j" unfolding j(1) using j(2) by (rule nth_mid)
  moreover have "printable (cur ! j)" using assms(1) j(2) by simp
  ultimately show ?thesis using assms(2) by (simp add: run_start_def)
qed


lemma filter_starts_run:
  assumes "cur \<noteq> []" "\<forall>c\<in>set cur. printable c" "pre = [] \<or> \<not> printable (last pre)"
  shows "filter (run_start (pre @ cur @ rest)) [length pre..<length pre + length cur]
         = [length pre]"
proof -
  have split: "[length pre..<length pre + length cur]
               = length pre # [Suc (length pre)..<length pre + length cur]"
    using assms(1) by (intro upt_conv_Cons) simp
  have "filter (run_start (pre @ cur @ rest)) [Suc (length pre)..<length pre + length cur] = []"
    using no_start_inside[OF assms(2), of pre _ rest] by (auto simp: filter_empty_conv)
  with start_first[OF assms, of rest] show ?thesis unfolding split by simp
qed

lemma takeWhile_run:
  assumes "\<forall>c\<in>set cur. printable c" "rest = [] \<or> \<not> printable (hd rest)"
  shows "takeWhile printable (drop (length pre) (pre @ cur @ rest)) = cur"
proof -
  have "takeWhile printable (cur @ rest) = cur"
  proof (cases rest)
    case Nil then show ?thesis using assms(1) by simp
  next
    case (Cons b bs)
    with assms(2) have "\<not> printable b" by simp
    with Cons assms(1) show ?thesis by (simp add: takeWhile_append2)
  qed
  then show ?thesis by simp
qed

lemma upt_split3:
  assumes "i \<le> j" "j < n"
  shows "[i..<n] = [i..<j] @ j # [Suc j..<n]"
proof -
  from assms(2) obtain k where k: "j + k = n" using less_imp_add_positive by blast
  have "[i..<j + k] = [i..<j] @ [j..<j + k]" using assms(1) by (rule upt_add_eq_append)
  then have "[i..<n] = [i..<j] @ [j..<n]" unfolding k .
  moreover have "[j..<n] = j # [Suc j..<n]" using assms(2) by (rule upt_conv_Cons)
  ultimately show ?thesis by simp
qed

lemma pending_runs_spec:
  assumes "\<forall>c\<in>set cur. printable c" "pre = [] \<or> \<not> printable (last pre)"
  shows "pending_runs cur bs =
         map (\<lambda>i. takeWhile printable (drop i (pre @ cur @ bs)))
             (filter (run_start (pre @ cur @ bs)) [length pre..<length (pre @ cur @ bs)])"
  using assms
proof (induction bs arbitrary: pre cur)
  case Nil
  show ?case
  proof (cases "cur = []")
    case True then show ?thesis by simp
  next
    case False
    have f: "filter (run_start (pre @ cur @ [])) [length pre..<length pre + length cur]
             = [length pre]"
      using False Nil.prems by (rule filter_starts_run)
    have tw: "takeWhile printable (drop (length pre) (pre @ cur @ [])) = cur"
      using Nil.prems(1) by (intro takeWhile_run) simp_all
    have len: "length (pre @ cur @ []) = length pre + length cur" by simp
    show ?thesis unfolding len f using False Nil.prems(1)
      by (simp add: takeWhile_eq_all_conv[THEN iffD2])
  qed
next
  case (Cons b bs)
  let ?d = "pre @ cur @ b # bs"
  let ?k = "length pre + length cur"
  show ?case
  proof (cases "printable b")
    case True
    have "pending_runs (cur @ [b]) bs =
          map (\<lambda>i. takeWhile printable (drop i (pre @ (cur @ [b]) @ bs)))
             (filter (run_start (pre @ (cur @ [b]) @ bs)) [length pre..<length (pre @ (cur @ [b]) @ bs)])"
      using Cons.prems True by (intro Cons.IH) auto
    then show ?thesis using True by simp
  next
    case False
    have nb: "\<not> run_start ?d ?k"
      using False by (simp add: run_start_def nth_append)
    have ih: "pending_runs [] bs =
          map (\<lambda>i. takeWhile printable (drop i ?d))
             (filter (run_start ?d) [Suc ?k..<length ?d])"
      using Cons.IH[of "[]" "pre @ cur @ [b]"] False by simp
    have up: "[length pre..<length ?d] = [length pre..<?k] @ ?k # [Suc ?k..<length ?d]"
      by (rule upt_split3) simp_all
    have pr: "pending_runs cur (b # bs) = (if cur = [] then [] else [cur]) @ pending_runs [] bs"
      using False by simp
    show ?thesis
    proof (cases "cur = []")
      case True
      show ?thesis unfolding pr up ih using True nb by simp
    next
      case F2: False
      have f: "filter (run_start ?d) [length pre..<?k] = [length pre]"
        using F2 Cons.prems by (rule filter_starts_run)
      have tw: "takeWhile printable (drop (length pre) ?d) = cur"
        using Cons.prems(1) by (intro takeWhile_run) (simp_all add: False)
      show ?thesis unfolding pr up ih using F2 nb f tw by simp
    qed
  qed
qed

lemma take_if_longer: "(if length xs > n then take n xs else xs) = take n xs"
  by simp

text \<open>
  Claim C5. \<open>extractAsciiStrings\<close> returns, in order from the left, the maximal runs of
  printable bytes (0x20 to 0x7E inclusive) that are longer than 4, cut to the first 10;
  the bytes \<open>AAAAA 00 BBBBB 01 C\<close> give exactly \<open>AAAAA\<close> and \<open>BBBBB\<close>.
\<close>

theorem C5_extractAsciiStrings:
  "extractAsciiStrings chunk = ascii_strings_spec chunk \<and>
   extractAsciiStrings (''AAAAA'' @ [CHR 0x00] @ ''BBBBB'' @ [CHR 0x01] @ ''C'')
     = [''AAAAA'', ''BBBBB'']"
proof
  obtain s c where sc: "extract_loop [] [] chunk = (s, c)" by (cases "extract_loop [] [] chunk")
  have "(if length c > 4 then s @ [c] else s)
        = filter (\<lambda>r. 4 < length r) (pending_runs [] chunk)"
    using extract_loop_pending[of "[]" "[]" chunk] unfolding sc by simp
  then have "extractAsciiStrings chunk
        = take 10 (filter (\<lambda>r. 4 < length r) (pending_runs [] chunk))"
    unfolding extractAsciiStrings_def sc Let_def by (simp only: prod.case take_if_longer)
  also have "pending_runs [] chunk = maximal_runs chunk"
    using pending_runs_spec[of "[]" "[]" chunk] by (simp add: maximal_runs_def)
  finally show "extractAsciiStrings chunk = ascii_strings_spec chunk"
    by (simp add: ascii_strings_spec_def)
next
  show "extractAsciiStrings (''AAAAA'' @ [CHR 0x00] @ ''BBBBB'' @ [CHR 0x01] @ ''C'')
     = [''AAAAA'', ''BBBBB'']"
    by (simp add: extractAsciiStrings_def)
qed

theorem C5_extractAsciiStrings_witness:
  "ascii_strings_spec (''AAAAA'' @ [CHR 0x00] @ ''BBBBB'' @ [CHR 0x01] @ ''C'')
     = [''AAAAA'', ''BBBBB'']"
proof -
  let ?chunk = "''AAAAA'' @ [CHR 0x00] @ ''BBBBB'' @ [CHR 0x01] @ ''C''"
  from C5_extractAsciiStrings[of ?chunk]
  have "extractAsciiStrings ?chunk = ascii_strings_spec ?chunk"
    and "extractAsciiStrings ?chunk = [''AAAAA'', ''BBBBB'']" by blast+
  then show ?thesis by (rule trans[OF sym])
qed

section \<open>The registry and the statistics\<close>

text \<open>The decimal rendering and a message, on examples.\<close>

lemma int_dec_examples:
  "int_dec 8080 = ''8080''" "int_dec (- 5) = ''-5''" "int_dec 0 = ''0''"
  by (simp_all add: int_dec_def nat_dec.simps[of 8080] nat_dec.simps[of 808] nat_dec.simps[of 80]
      nat_dec.simps[of 8] nat_dec.simps[of 5] nat_dec.simps[of 0])

lemma AlreadyRunning_8080: "AlreadyRunning 8080 = ''proxy already running on port 8080''"
  by (simp add: AlreadyRunning_def int_dec_examples)

lemma AlreadyRunning_neq_BindError: "AlreadyRunning p \<noteq> BindError q r"
  by (simp add: AlreadyRunning_def BindError_def)

lemma update_fresh: "map_of al k = None \<Longrightarrow> AList.update k v al = al @ [(k, v)]"
  by (induction al) (auto split: if_splits)

lemma StartProxy_exists:
  "map_of (proxies pm) port = Some inst \<Longrightarrow>
   StartProxy pm lr now port host fport limit = (Some (AlreadyRunning port), pm)"
  by (simp add: StartProxy_def)

lemma StartProxy_bind_fails:
  "map_of (proxies pm) port = None \<Longrightarrow>
   StartProxy pm (Inl reason) now port host fport limit = (Some (BindError port reason), pm)"
  by (simp add: StartProxy_def)

lemma StartProxy_registers:
  "map_of (proxies pm) port = None \<Longrightarrow>
   StartProxy pm (Inr l) now port host fport limit =
     (None, pm\<lparr> proxies := proxies pm @
        [(port, \<lparr> ListenPort = port, ForwardHost = host, ForwardPort = fport, Listener = l,
                  Buffer = NewRingBuffer limit,
                  Stats = \<lparr> BytesCaptured = 0, Connections = 0 \<rparr>,
                  Done = False, StartedAt = now, connections = 0 \<rparr>)] \<rparr>)"
  by (simp add: StartProxy_def Let_def update_fresh)

lemma NewRingBuffer_positive: "0 < maxSize (NewRingBuffer m)"
  by (simp add: NewRingBuffer_def Let_def)

lemma StartProxy_ok:
  assumes "registry_ok pm"
  shows "registry_ok (snd (StartProxy pm lr now port host fport limit))"
proof (cases "map_of (proxies pm) port")
  case (Some inst)
  then show ?thesis using assms by (simp add: StartProxy_exists)
next
  case None
  then have nk: "port \<notin> fst ` set (proxies pm)" by (simp add: map_of_eq_None_iff)
  show ?thesis
  proof (cases lr)
    case (Inl reason)
    then show ?thesis using None assms by (simp add: StartProxy_bind_fails)
  next
    case (Inr l)
    then show ?thesis using None assms nk
      by (simp add: StartProxy_registers registry_ok_def NewRingBuffer_positive)
  qed
qed

lemma StartProxy_keeps:
  "map_of (proxies pm) p \<noteq> None \<Longrightarrow>
   map_of (proxies (snd (StartProxy pm lr now port host fport limit))) p \<noteq> None"
  by (cases "map_of (proxies pm) port"; cases lr)
     (auto simp: StartProxy_exists StartProxy_bind_fails StartProxy_registers)

lemma StartProxy_success:
  "fst (StartProxy pm lr now port host fport limit) = None \<Longrightarrow>
   map_of (proxies pm) port = None \<and>
   map_of (proxies (snd (StartProxy pm lr now port host fport limit))) port \<noteq> None"
  by (cases "map_of (proxies pm) port"; cases lr)
     (auto simp: StartProxy_exists StartProxy_bind_fails StartProxy_registers)

lemma start_calls_ok:
  "registry_ok pm \<Longrightarrow> registry_ok (snd (start_calls pm cs))"
proof (induction cs arbitrary: pm)
  case Nil
  then show ?case by simp
next
  case (Cons c cs)
  from StartProxy_ok[OF Cons.prems]
  have "registry_ok (snd (StartProxy pm (call_listen c) (call_now c) (call_port c)
           (call_host c) (call_fport c) (call_limit c)))" .
  from Cons.IH[OF this] show ?case by (simp add: split_beta)
qed

lemma started_on_bound:
  "started_on p (fst (start_calls pm cs)) cs \<le> 1 \<and>
   (map_of (proxies pm) p \<noteq> None \<longrightarrow> started_on p (fst (start_calls pm cs)) cs = 0)"
proof (induction cs arbitrary: pm)
  case Nil
  then show ?case by (simp add: started_on_def)
next
  case (Cons c cs)
  let ?r = "StartProxy pm (call_listen c) (call_now c) (call_port c)
           (call_host c) (call_fport c) (call_limit c)"
  have step: "started_on p (fst (start_calls pm (c # cs))) (c # cs)
        = (if fst ?r = None \<and> call_port c = p then 1 else 0)
          + started_on p (fst (start_calls (snd ?r) cs)) cs"
    by (auto simp add: started_on_def split_beta)
  note ih = Cons.IH[of "snd ?r"]
  show ?case
  proof (cases "fst ?r = None \<and> call_port c = p")
    case True
    then have "map_of (proxies pm) p = None" "map_of (proxies (snd ?r)) p \<noteq> None"
      using StartProxy_success[of pm "call_listen c" "call_now c" "call_port c"
            "call_host c" "call_fport c" "call_limit c"] by auto
    with ih True show ?thesis unfolding step by simp
  next
    case False
    have "map_of (proxies pm) p \<noteq> None \<longrightarrow> map_of (proxies (snd ?r)) p \<noteq> None"
      using StartProxy_keeps by blast
    with ih False show ?thesis unfolding step by auto
  qed
qed

text \<open>
  Claim C6. \<open>StartProxy\<close> returns the already-running error exactly when the registry
  holds an entry for the port, and then leaves the registry as it was; with no entry and
  a failed bind it returns the bind error, whose message is \<open>failed to bind to port\<close>,
  the port in decimal, a colon and the operating system's reason (so the reason is the
  end of the message), and leaves the registry as it was; otherwise it returns \<open>nil\<close> and adds exactly one entry, the new
  instance under that port. A registry with one entry per port keeps one entry per port,
  also over any sequence of calls (calls from several goroutines are serialized by the
  lock), and over any such sequence at most one call per port succeeds.
\<close>

theorem C6_StartProxy:
  "(fst (StartProxy pm lr now port host fport limit) = Some (AlreadyRunning port)
      \<longleftrightarrow> map_of (proxies pm) port \<noteq> None) \<and>
   (map_of (proxies pm) port \<noteq> None \<longrightarrow>
      snd (StartProxy pm lr now port host fport limit) = pm) \<and>
   (map_of (proxies pm) port = None \<longrightarrow>
      StartProxy pm (Inl reason) now port host fport limit
        = (Some (BindError port reason), pm)) \<and>
   (map_of (proxies pm) port = None \<longrightarrow>
      (\<exists>inst. StartProxy pm (Inr l) now port host fport limit
                = (None, pm\<lparr> proxies := proxies pm @ [(port, inst)] \<rparr>) \<and>
              ListenPort inst = port \<and> ForwardHost inst = host \<and> ForwardPort inst = fport \<and>
              Listener inst = l \<and> \<not> Done inst \<and>
              Buffer inst = NewRingBuffer limit)) \<and>
   (registry_ok pm \<longrightarrow> registry_ok (snd (StartProxy pm lr now port host fport limit))) \<and>
   (registry_ok pm \<longrightarrow> registry_ok (snd (start_calls pm cs))) \<and>
   started_on p (fst (start_calls pm cs)) cs \<le> 1 \<and>
   (map_of (proxies pm) port = None \<longrightarrow>
      fst (StartProxy pm (Inl reason) now port host fport limit)
        = Some (''failed to bind to port '' @ int_dec port @ '': '' @ reason)) \<and>
   suffix reason (BindError port reason) \<and>
   (map_of (proxies pm) port \<noteq> None \<longrightarrow>
      fst (StartProxy pm lr now port host fport limit)
        = Some (''proxy already running on port '' @ int_dec port))"
proof (intro conjI impI)
  show "fst (StartProxy pm lr now port host fport limit) = Some (AlreadyRunning port)
      \<longleftrightarrow> map_of (proxies pm) port \<noteq> None"
    by (cases "map_of (proxies pm) port"; cases lr)
       (auto simp: StartProxy_exists StartProxy_bind_fails StartProxy_registers
          AlreadyRunning_neq_BindError[symmetric])
next
  assume "map_of (proxies pm) port \<noteq> None"
  then show "snd (StartProxy pm lr now port host fport limit) = pm"
    by (auto simp: StartProxy_exists)
next
  assume "map_of (proxies pm) port = None"
  then show "StartProxy pm (Inl reason) now port host fport limit
        = (Some (BindError port reason), pm)" by (rule StartProxy_bind_fails)
next
  let ?inst = "\<lparr> ListenPort = port, ForwardHost = host, ForwardPort = fport, Listener = l,
                  Buffer = NewRingBuffer limit,
                  Stats = \<lparr> BytesCaptured = 0, Connections = 0 \<rparr>,
                  Done = False, StartedAt = now, connections = 0 \<rparr>"
  assume "map_of (proxies pm) port = None"
  from StartProxy_registers[OF this, of l now host fport limit]
  have "StartProxy pm (Inr l) now port host fport limit
                = (None, pm\<lparr> proxies := proxies pm @ [(port, ?inst)] \<rparr>) \<and>
              ListenPort ?inst = port \<and> ForwardHost ?inst = host \<and> ForwardPort ?inst = fport \<and>
              Listener ?inst = l \<and> \<not> Done ?inst \<and>
              Buffer ?inst = NewRingBuffer limit" by simp
  then show "\<exists>inst. StartProxy pm (Inr l) now port host fport limit
                = (None, pm\<lparr> proxies := proxies pm @ [(port, inst)] \<rparr>) \<and>
              ListenPort inst = port \<and> ForwardHost inst = host \<and> ForwardPort inst = fport \<and>
              Listener inst = l \<and> \<not> Done inst \<and>
              Buffer inst = NewRingBuffer limit"
    by (rule exI)
next
  assume "registry_ok pm"
  then show "registry_ok (snd (StartProxy pm lr now port host fport limit))"
    by (rule StartProxy_ok)
next
  assume "registry_ok pm"
  then show "registry_ok (snd (start_calls pm cs))" by (rule start_calls_ok)
next
  show "started_on p (fst (start_calls pm cs)) cs \<le> 1"
    using started_on_bound by blast
next
  assume "map_of (proxies pm) port = None"
  then show "fst (StartProxy pm (Inl reason) now port host fport limit)
        = Some (''failed to bind to port '' @ int_dec port @ '': '' @ reason)"
    by (simp add: StartProxy_bind_fails BindError_def)
next
  show "suffix reason (BindError port reason)"
    unfolding BindError_def by (auto simp: suffix_def)
next
  assume "map_of (proxies pm) port \<noteq> None"
  then show "fst (StartProxy pm lr now port host fport limit)
        = Some (''proxy already running on port '' @ int_dec port)"
    by (auto simp: StartProxy_exists AlreadyRunning_def)
qed

theorem C6_StartProxy_witness:
  "StartProxy pm_8080 (Inr 8) 1 8080 ''localhost'' 3001 0 = (Some (AlreadyRunning 8080), pm_8080) \<and>
   StartProxy pm_8080 (Inl ''address already in use'') 1 9090 ''localhost'' 3001 0
     = (Some (BindError 9090 ''address already in use''), pm_8080) \<and>
   map fst (proxies pm_8080) = [8080] \<and> registry_ok pm_8080 \<and>
   fst (StartProxy pm_8080 (Inl ''address already in use'') 1 9090 ''localhost'' 3001 0)
     = Some ''failed to bind to port 9090: address already in use'' \<and>
   fst (StartProxy pm_8080 (Inr 8) 1 8080 ''localhost'' 3001 0)
     = Some ''proxy already running on port 8080'' \<and>
   suffix ''address already in use'' (BindError 9090 ''address already in use'')"
proof -
  have d: "int_dec 9090 = ''9090''"
    by (simp add: int_dec_def nat_dec.simps[of 9090] nat_dec.simps[of 909]
        nat_dec.simps[of 90] nat_dec.simps[of 9])
  have e: "map_of (proxies pm_8080) 8080 \<noteq> None" "map_of (proxies pm_8080) 9090 = None"
    and k: "map fst (proxies pm_8080) = [8080]"
    by (simp_all add: pm_8080_def StartProxy_def NewProxyManager_def Let_def)
  have ok0: "registry_ok NewProxyManager" by (simp add: registry_ok_def NewProxyManager_def)
  from C6_StartProxy[of pm_8080 "Inr 8" 1 8080 "''localhost''" 3001 0 _ _ "[]" 0] e(1)
  have "fst (StartProxy pm_8080 (Inr 8) 1 8080 ''localhost'' 3001 0) = Some (AlreadyRunning 8080)"
    and "snd (StartProxy pm_8080 (Inr 8) 1 8080 ''localhost'' 3001 0) = pm_8080"
    by blast+
  then have a: "StartProxy pm_8080 (Inr 8) 1 8080 ''localhost'' 3001 0
                = (Some (AlreadyRunning 8080), pm_8080)"
    by (simp add: prod_eq_iff)
  from C6_StartProxy[of pm_8080 _ 1 9090 "''localhost''" 3001 0 "''address already in use''" _ "[]" 0] e(2)
  have b: "StartProxy pm_8080 (Inl ''address already in use'') 1 9090 ''localhost'' 3001 0
     = (Some (BindError 9090 ''address already in use''), pm_8080)" by blast
  from C6_StartProxy[of NewProxyManager "Inr 7" 0 8080 "''localhost''" 3000 0 _ _ "[]" 0] ok0
  have ok: "registry_ok pm_8080" unfolding pm_8080_def by blast
  from C6_StartProxy[of pm_8080 _ 1 9090 "''localhost''" 3001 0 "''address already in use''" _ "[]" 0] e(2)
  have m1: "fst (StartProxy pm_8080 (Inl ''address already in use'') 1 9090 ''localhost'' 3001 0)
     = Some (''failed to bind to port '' @ int_dec 9090 @ '': '' @ ''address already in use'')"
    and m3: "suffix ''address already in use'' (BindError 9090 ''address already in use'')"
    by blast+
  from C6_StartProxy[of pm_8080 "Inr 8" 1 8080 "''localhost''" 3001 0 _ _ "[]" 0] e(1)
  have m2: "fst (StartProxy pm_8080 (Inr 8) 1 8080 ''localhost'' 3001 0)
     = Some (''proxy already running on port '' @ int_dec 8080)" by blast
  have m1': "fst (StartProxy pm_8080 (Inl ''address already in use'') 1 9090 ''localhost'' 3001 0)
     = Some ''failed to bind to port 9090: address already in use''"
    unfolding m1 d by simp
  have m2': "fst (StartProxy pm_8080 (Inr 8) 1 8080 ''localhost'' 3001 0)
     = Some ''proxy already running on port 8080''"
    unfolding m2 int_dec_examples(1) by simp
  from a b k ok m1' m2' m3 show ?thesis by (intro conjI)
qed

lemma registry_ok_entry:
  assumes "registry_ok pm" "map_of (proxies pm) port = Some inst"
  shows "(port, inst) \<in> set (proxies pm)" "\<not> Done inst" "ListenPort inst = port"
proof -
  show m: "(port, inst) \<in> set (proxies pm)" using assms(2) by (rule map_of_SomeD)
  from assms(1) have "list_all (\<lambda>(port, proxy). ListenPort proxy = port \<and> \<not> Done proxy \<and>
                                0 < maxSize (Buffer proxy)) (proxies pm)"
    by (simp add: registry_ok_def)
  with m show "\<not> Done inst" "ListenPort inst = port" by (auto simp: list_all_iff)
qed

lemma delete_set_distinct:
  "distinct (map fst al) \<Longrightarrow> map_of al k = Some v \<Longrightarrow>
   set (AList.delete k al) = set al - {(k, v)} \<and> length (AList.delete k al) = length al - 1"
proof (induction al)
  case Nil
  then show ?case by simp
next
  case (Cons a al)
  obtain k' v' where a: "a = (k', v')" by (cases a)
  show ?case
  proof (cases "k' = k")
    case True
    with Cons.prems a have "k \<notin> fst ` set al" "v' = v" by auto
    then have "AList.delete k al = al" "(k, v) \<notin> set al" by (auto simp: image_iff)
    with True a \<open>v' = v\<close> show ?thesis by simp
  next
    case False
    with Cons a have ih: "set (AList.delete k al) = set al - {(k, v)}"
      "length (AList.delete k al) = length al - 1" by auto
    from Cons.prems False a have "map_of al k = Some v" by simp
    then have "al \<noteq> []" by auto
    then have "0 < length al" by simp
    with ih False a show ?thesis by auto
  qed
qed

text \<open>
  Claim C7. \<open>StopProxy\<close> on a port without an entry returns the not-found error and
  leaves the registry as it was; on a registered port it returns the byte count of that
  instance's statistics and \<open>nil\<close>, and removes that entry and no other.
\<close>

theorem C7_StopProxy:
  "(map_of (proxies pm) port = None \<longrightarrow>
      StopProxy pm port = Some ((0, Some (NotFound port)), pm)) \<and>
   (registry_ok pm \<longrightarrow> map_of (proxies pm) port = Some inst \<longrightarrow>
      (\<exists>pm'. StopProxy pm port = Some ((BytesCaptured (Stats inst), None), pm') \<and>
             map_of (proxies pm') = (map_of (proxies pm))(port := None) \<and>
             set (proxies pm') = set (proxies pm) - {(port, inst)} \<and>
             length (proxies pm') = length (proxies pm) - 1 \<and>
             registry_ok pm'))"
proof (intro conjI impI)
  assume "map_of (proxies pm) port = None"
  then show "StopProxy pm port = Some ((0, Some (NotFound port)), pm)"
    by (simp add: StopProxy_def)
next
  assume ok: "registry_ok pm" and m: "map_of (proxies pm) port = Some inst"
  let ?pm' = "pm\<lparr> proxies := AList.delete port (proxies pm) \<rparr>"
  have d: "distinct (map fst (proxies pm))" using ok by (simp add: registry_ok_def)
  have "\<not> Done inst" using ok m by (rule registry_ok_entry)
  then have s: "StopProxy pm port = Some ((BytesCaptured (Stats inst), None), ?pm')"
    using m by (simp add: StopProxy_def Let_def)
  have ds: "set (proxies ?pm') = set (proxies pm) - {(port, inst)}"
    "length (proxies ?pm') = length (proxies pm) - 1"
    using delete_set_distinct[OF d m] by simp_all
  have "registry_ok ?pm'"
    using ok ds(1) distinct_delete[OF d, of port]
    by (auto simp: registry_ok_def list_all_iff)
  with s ds show "\<exists>pm'. StopProxy pm port = Some ((BytesCaptured (Stats inst), None), pm') \<and>
             map_of (proxies pm') = (map_of (proxies pm))(port := None) \<and>
             set (proxies pm') = set (proxies pm) - {(port, inst)} \<and>
             length (proxies pm') = length (proxies pm) - 1 \<and>
             registry_ok pm'"
    by (intro exI[of _ ?pm']) (simp add: delete_conv')
qed

theorem C7_StopProxy_witness:
  "StopProxy pm_8080 9090 = Some ((0, Some (NotFound 9090)), pm_8080) \<and>
   StopProxy pm_8080 8080 = Some ((0, None), NewProxyManager)"
proof -
  have e: "map_of (proxies pm_8080) 9090 = None"
    by (simp add: pm_8080_def StartProxy_def NewProxyManager_def Let_def)
  obtain inst where i: "map_of (proxies pm_8080) 8080 = Some inst" "BytesCaptured (Stats inst) = 0"
    "proxies pm_8080 = [(8080, inst)]"
    by (simp add: pm_8080_def StartProxy_def NewProxyManager_def Let_def)
  have ok: "registry_ok pm_8080"
    by (simp add: pm_8080_def StartProxy_def NewProxyManager_def Let_def registry_ok_def
        NewRingBuffer_def)
  from C7_StopProxy[of pm_8080 9090] e
  have a: "StopProxy pm_8080 9090 = Some ((0, Some (NotFound 9090)), pm_8080)" by blast
  from C7_StopProxy[of pm_8080 8080 inst] ok i(1) obtain pm' where
    b: "StopProxy pm_8080 8080 = Some ((BytesCaptured (Stats inst), None), pm')"
       "set (proxies pm') = set (proxies pm_8080) - {(8080, inst)}" by blast
  from b(2) i(3) have "proxies pm' = []" by simp
  then have "pm' = NewProxyManager" by (cases pm') (simp add: NewProxyManager_def)
  with a b(1) i(2) show ?thesis by simp
qed

lemma contents_length: "ring_inv rb \<Longrightarrow> length (contents rb) = count rb"
  by (simp add: ring_inv_def contents_def)

text \<open>
  Claim C8. \<open>GetStats\<close> returns the packet count, the byte counter and the usage
  \<open>100 * bytes / budget\<close> (0 when the budget is 0), and leaves the buffer as it was. In a
  buffer that satisfies the invariant of the ring, the count and the byte counter are the
  number and the raw bytes of the packets that \<open>GetAll\<close> returns.
\<close>

theorem C8_GetStats:
  "GetStats rb = ((count rb, currentSize rb,
                   if maxSize rb = 0 then 0
                   else 100 * real_of_int (currentSize rb) / real_of_int (maxSize rb)), rb) \<and>
   (ring_inv rb \<longrightarrow>
      (\<exists>qs. GetAll rb = Some qs \<and> count rb = length qs \<and>
            currentSize rb = int (raw_total qs)))"
proof (intro conjI impI)
  show "GetStats rb = ((count rb, currentSize rb,
                   if maxSize rb = 0 then 0
                   else 100 * real_of_int (currentSize rb) / real_of_int (maxSize rb)), rb)"
    by (simp add: GetStats_def getUsagePercentLocked_def)
next
  assume inv: "ring_inv rb"
  then have "GetAll rb = Some (contents rb)" by (rule GetAll_correct)
  moreover have "count rb = length (contents rb)" using inv by (simp add: contents_length)
  moreover have "currentSize rb = int (raw_total (contents rb))"
    using inv by (simp add: ring_inv_def)
  ultimately show "\<exists>qs. GetAll rb = Some qs \<and> count rb = length qs \<and>
            currentSize rb = int (raw_total qs)" by blast
qed

lemma test_buffer_Add: "Add (NewRingBuffer (1024 * 1024)) test_packet = Some test_buffer"
  by (simp add: Add_def NewRingBuffer_def Let_def evict.simps test_packet_def test_buffer_def)

theorem C8_GetStats_witness:
  "GetStats test_buffer = ((1, 100, 625 / 65536), test_buffer) \<and>
   GetAll test_buffer = Some [Some test_packet]"
proof -
  have "0 \<le> maxSize (NewRingBuffer (1024 * 1024))" by (simp add: NewRingBuffer_def Let_def)
  from Add_correct[OF NewRingBuffer_inv this, of test_packet]
  have inv: "ring_inv test_buffer" unfolding test_buffer_Add by auto
  have f: "count test_buffer = 1" "currentSize test_buffer = 100" "maxSize test_buffer = 1024 * 1024"
    by (simp_all add: test_buffer_def)
  from C8_GetStats[of test_buffer] inv obtain qs where
    g: "GetStats test_buffer = ((count test_buffer, currentSize test_buffer,
                   if maxSize test_buffer = 0 then 0
                   else 100 * real_of_int (currentSize test_buffer) / real_of_int (maxSize test_buffer)),
                   test_buffer)"
    and q: "GetAll test_buffer = Some qs" "count test_buffer = length qs" by blast
  have "GetAll test_buffer = Some [Some test_packet]"
    by (simp add: GetAll_def test_buffer_def slice_go_def copy_go_def Let_def
        take_Suc_conv_app_nth)
  moreover have "GetStats test_buffer = ((1, 100, 625 / 65536), test_buffer)"
    unfolding g f by simp
  ultimately show ?thesis by simp
qed

section \<open>The tool handlers: errors and defaults\<close>

lemma StopProxy_error:
  "StopProxy pm port = Some ((b, Some e), pm') \<Longrightarrow> e = NotFound port \<and> pm' = pm"
  by (auto simp: StopProxy_def Let_def split: option.splits if_splits)






lemma evict_maxSize: "evict rb n = Some rb' \<Longrightarrow> maxSize rb' = maxSize rb"
proof (induction rb n rule: evict.induct)
  case (1 rb n)
  show ?case
  proof (cases "currentSize rb + n > maxSize rb \<and> count rb > 0")
    case False
    with "1.prems" show ?thesis by (subst (asm) evict.simps) simp
  next
    case True
    from "1.prems" True obtain old where
      t: "tail rb < length (data rb)" and o: "data rb ! tail rb = Some old"
      and e: "evict (rb\<lparr> currentSize := currentSize rb - int (length (RawData old)),
                           tail := (tail rb + 1) mod length (data rb),
                           count := count rb - 1 \<rparr>) n = Some rb'"
      by (subst (asm) evict.simps) (auto split: if_splits option.splits)
    from "1.IH"[OF True t o e] show ?thesis by simp
  qed
qed

lemma Add_maxSize: "Add rb p = Some rb' \<Longrightarrow> maxSize rb' = maxSize rb"
  by (auto simp: Add_def Let_def grow_def split: option.splits if_splits prod.splits
      dest!: evict_maxSize)

lemma float64_to_int_nonpos: "v \<le> 0 \<Longrightarrow> float64_to_int v \<le> 0"
  by (auto simp: float64_to_int_def)

text \<open>
  Claim C10. \<open>NewRingBuffer\<close> replaces a requested budget that is zero or negative by
  10485760 bytes and keeps a positive one, so a new buffer has a positive budget, and
  \<open>Add\<close> and \<open>Clear\<close> never change it. The start handler makes the same replacement
  when \<open>capture_limit\<close> is absent and when it is an integer or a float that is zero or
  negative; the instance it then registers has a budget of 10485760 bytes.
\<close>

theorem C10_default_budget:
  "(m \<le> 0 \<longrightarrow> maxSize (NewRingBuffer m) = 10485760) \<and>
   (0 < m \<longrightarrow> maxSize (NewRingBuffer m) = m) \<and>
   0 < maxSize (NewRingBuffer m) \<and>
   (Add rb p = Some rb' \<longrightarrow> maxSize rb' = maxSize rb) \<and>
   maxSize (Clear rb) = maxSize rb \<and>
   (map_of args ''capture_limit'' = None \<longrightarrow> startCaptureLimit args = 10485760) \<and>
   (v \<le> 0 \<longrightarrow> (map_of args ''capture_limit'' = Some (AInt v) \<or>
               map_of args ''capture_limit'' = Some (AInt64 v)) \<longrightarrow>
      startCaptureLimit args = 10485760) \<and>
   (x \<le> 0 \<longrightarrow> map_of args ''capture_limit'' = Some (AFloat64 x) \<longrightarrow>
      startCaptureLimit args = 10485760) \<and>
   (fst (getInt args ''capture_limit'') \<le> 0 \<longrightarrow>
    snd (getInt args ''listen_port'') \<longrightarrow> snd (getInt args ''forward_port'') \<longrightarrow>
    map_of (proxies pm) (fst (getInt args ''listen_port'')) = None \<longrightarrow>
      (\<exists>payload inst.
         StartProxyHandler_Execute pm (Inr l) now (AMap args)
           = ((Some payload, None),
              pm\<lparr> proxies := proxies pm @ [(fst (getInt args ''listen_port''), inst)] \<rparr>) \<and>
         maxSize (Buffer inst) = 10485760))"
proof (intro conjI impI)
  show "0 < maxSize (NewRingBuffer m)" by (simp add: NewRingBuffer_def Let_def)
next
  assume "m \<le> 0" then show "maxSize (NewRingBuffer m) = 10485760"
    by (simp add: NewRingBuffer_def Let_def)
next
  assume "0 < m" then show "maxSize (NewRingBuffer m) = m"
    by (simp add: NewRingBuffer_def Let_def)
next
  assume "Add rb p = Some rb'" then show "maxSize rb' = maxSize rb" by (rule Add_maxSize)
next
  show "maxSize (Clear rb) = maxSize rb" by (simp add: Clear_def)
next
  assume "map_of args ''capture_limit'' = None"
  then show "startCaptureLimit args = 10485760"
    by (simp add: startCaptureLimit_def getInt_def)
next
  assume "v \<le> 0" "map_of args ''capture_limit'' = Some (AInt v) \<or>
               map_of args ''capture_limit'' = Some (AInt64 v)"
  then show "startCaptureLimit args = 10485760"
    by (auto simp: startCaptureLimit_def getInt_def)
next
  assume "x \<le> 0" "map_of args ''capture_limit'' = Some (AFloat64 x)"
  then show "startCaptureLimit args = 10485760"
    by (simp add: startCaptureLimit_def getInt_def float64_to_int_nonpos)
next
  let ?lp = "fst (getInt args ''listen_port'')"
  let ?fh = "if fst (getString args ''forward_host'') = [] then ''localhost''
             else fst (getString args ''forward_host'')"
  assume c: "fst (getInt args ''capture_limit'') \<le> 0"
    and ok: "snd (getInt args ''listen_port'')" "snd (getInt args ''forward_port'')"
    and free: "map_of (proxies pm) ?lp = None"
  have cl: "startCaptureLimit args = 10485760" using c by (simp add: startCaptureLimit_def)
  let ?inst = "\<lparr> ListenPort = ?lp, ForwardHost = ?fh,
                 ForwardPort = fst (getInt args ''forward_port''), Listener = l,
                 Buffer = NewRingBuffer 10485760,
                 Stats = \<lparr> BytesCaptured = 0, Connections = 0 \<rparr>,
                 Done = False, StartedAt = now, connections = 0 \<rparr>"
  have s: "StartProxy pm (Inr l) now ?lp ?fh (fst (getInt args ''forward_port'')) 10485760
           = (None, pm\<lparr> proxies := proxies pm @ [(?lp, ?inst)] \<rparr>)"
    using free by (rule StartProxy_registers)
  have "\<exists>payload. StartProxyHandler_Execute pm (Inr l) now (AMap args)
           = ((Some payload, None), pm\<lparr> proxies := proxies pm @ [(?lp, ?inst)] \<rparr>)"
    using ok by (simp add: StartProxyHandler_Execute_def split_beta Let_def cl s)
  moreover have "maxSize (Buffer ?inst) = 10485760" by (simp add: NewRingBuffer_def Let_def)
  ultimately show "\<exists>payload inst.
         StartProxyHandler_Execute pm (Inr l) now (AMap args)
           = ((Some payload, None),
              pm\<lparr> proxies := proxies pm @ [(?lp, inst)] \<rparr>) \<and>
         maxSize (Buffer inst) = 10485760" by blast
qed

theorem C10_default_budget_witness:
  "maxSize (NewRingBuffer (- 5)) = 10485760 \<and> maxSize (NewRingBuffer 0) = 10485760 \<and>
   startCaptureLimit [(''capture_limit'', AFloat64 (- 1))] = 10485760 \<and>
   startCaptureLimit [(''capture_limit'', AInt 0)] = 10485760 \<and>
   startCaptureLimit [] = 10485760"
  using C10_default_budget[of "- 5" _ _ _ "[(''capture_limit'', AFloat64 (- 1))]" 0 "- 1"]
        C10_default_budget[of 0 _ _ _ "[(''capture_limit'', AInt 0)]" 0 0]
        C10_default_budget[of 0 _ _ _ "[]" 0 0]
  by simp

section \<open>The connection relay: closing the channel of the connection\<close>

lemma step_closes_ok: "closes_ok s \<Longrightarrow> step s ev = Some s' \<Longrightarrow> closes_ok s'"
  by (cases ev) (auto simp: closes_ok_def step_def split: if_splits)

lemma run_closes_ok: "closes_ok s \<Longrightarrow> run s evs = Some s' \<Longrightarrow> closes_ok s'"
  by (induction evs arbitrary: s) (auto split: option.splits dest: step_closes_ok)

text \<open>A run that ends without a panic has closed the channel of the connection at most once.\<close>

lemma run_closed_once:
  "run conn_init evs = Some s \<Longrightarrow> \<not> panicked s \<Longrightarrow> closes s \<le> 1"
  using run_closes_ok[of conn_init evs s]
  by (auto simp: closes_ok_def conn_init_def split: if_splits)

text \<open>
  Claim C3. The claim says that the two relays of one connection never close the
  channel of the connection twice. When both relays read \<open>io.EOF\<close> and both pass the
  guard before either closes, both stand before \<open>close(done)\<close> with the channel open;
  \<open>close(done)\<close> is then executed twice and the second execution panics. When the
  relays take the guard and the close in turn, the channel is closed once and the second
  relay returns without closing.
\<close>

theorem C3_double_close:
  "map_option (\<lambda>s. (loc s ClientToServer, loc s ServerToClient, connDone s, panicked s, closes s))
      (run conn_init both_eof_guards_passed) = Some (AtClose, AtClose, False, False, 0) \<and>
   map_option (\<lambda>s. (panicked s, closes s)) (run conn_init both_eof_interleaved)
      = Some (True, 2) \<and>
   map_option (\<lambda>s. (loc s ClientToServer, loc s ServerToClient, connDone s, panicked s, closes s))
      (run conn_init both_eof_in_turn) = Some (Returned, Returned, True, False, 1)"
proof (intro conjI)
  show "map_option (\<lambda>s. (loc s ClientToServer, loc s ServerToClient, connDone s, panicked s, closes s))
      (run conn_init both_eof_guards_passed) = Some (AtClose, AtClose, False, False, 0)"
    by (simp add: both_eof_guards_passed_def both_eof_interleaved_def conn_init_def step_def)
next
  show "map_option (\<lambda>s. (panicked s, closes s)) (run conn_init both_eof_interleaved)
      = Some (True, 2)"
    by (simp add: both_eof_interleaved_def conn_init_def step_def)
next
  show "map_option (\<lambda>s. (loc s ClientToServer, loc s ServerToClient, connDone s, panicked s, closes s))
      (run conn_init both_eof_in_turn) = Some (Returned, Returned, True, False, 1)"
    by (simp add: both_eof_in_turn_def conn_init_def step_def)
qed

end
